theory Spec2Isabelle
  imports Main
begin

section \<open>The sequential effect runner of createSequentialEffectRunner\<close>

text \<open>
  The runner is a closure over four variables (\<open>lastEffect\<close>, \<open>stopRequested\<close>,
  \<open>currentCleanup\<close>, \<open>isLooping\<close>), two public operations (\<open>run\<close>, \<open>stop\<close>) and an
  asynchronous driver \<open>loop\<close> that is started by \<open>ensureLoop\<close>.

  An \<open>Effect\<close> and a \<open>Cleanup\<close> are opaque JavaScript functions.  The runner only sees
  what a call to one does.  Either the call throws synchronously: it sits inside \<open>try\<close>,
  so the \<open>catch\<close> runs at once and the coroutine is not suspended.  Or it returns a value
  or a promise: then \<open>await\<close> suspends the coroutine until the environment settles the
  awaited promise (a returned value that is no promise counts as a promise fulfilled with
  it).  The first is a flag carried by the function, the second an action of the
  environment.  The number only tells one function from another.

  JavaScript runs one piece of code at a time, so \<open>run\<close>, \<open>stop\<close>, the stretch of the
  loop between two suspensions and the \<open>finally\<close> callback are each one step.  A function
  that calls \<open>run\<close> or \<open>stop\<close> itself while the loop is invoking it is the same as a call
  made right after the invocation: the closure variables are not touched in between.  So
  is a function that does this and then throws: it is a function without the flag, the
  call, and a rejection.
\<close>

datatype cleanup = Cleanup (cid: nat) (cthrows: bool)

datatype effect = Effect (eid: nat) (ethrows: bool)

text \<open>
  The suspended \<open>loop()\<close> coroutine: the \<open>await\<close> it is blocked on together with the
  locals that are live there, or \<open>Returned\<close> once the \<open>while\<close> was left through
  \<open>break\<close> and the promise of \<open>loop()\<close> is resolved, its \<open>finally\<close> callback not yet run.
\<close>

datatype frame =
    AtCleanup bool "effect option" cleanup  \<comment> \<open>\<open>await fn()\<close>; locals \<open>shouldStop\<close>, \<open>next\<close>, \<open>fn\<close>\<close>
  | AtSetup effect                          \<comment> \<open>\<open>await next()\<close>; local \<open>next\<close>\<close>
  | Returned

text \<open>What an observer of the runner sees, in order.\<close>

datatype event =
    RunCalled effect
  | StopCalled
  | CleanupBegin cleanup
  | CleanupDone cleanup
  | CleanupFailed cleanup
  | SetupBegin effect
  | SetupDone effect "cleanup option"
  | SetupFailed effect
  | Reported                                \<comment> \<open>\<open>console.error(e)\<close>\<close>

text \<open>What the awaited promise of a setup settles to.\<close>

datatype settlement =
    GivesCleanup cleanup   \<comment> \<open>fulfilled with a function\<close>
  | GivesNothing           \<comment> \<open>fulfilled with \<open>undefined\<close> (or anything that is not a function)\<close>
  | Rejects

record runner =
  lastEffect :: "effect option"
  stopRequested :: bool
  currentCleanup :: "cleanup option"
  isLooping :: bool
  loops :: "frame list"      \<comment> \<open>the \<open>loop()\<close> coroutines that exist, oldest first\<close>
  trace :: "event list"      \<comment> \<open>the events so far, oldest first\<close>

definition init :: runner where
  "init = \<lparr> lastEffect = None, stopRequested = False, currentCleanup = None,
            isLooping = False, loops = [], trace = [] \<rparr>"

definition emit :: "event list \<Rightarrow> runner \<Rightarrow> runner" where
  "emit evs s = s\<lparr> trace := trace s @ evs \<rparr>"

definition pending :: "runner \<Rightarrow> bool" where
  "pending s \<longleftrightarrow> stopRequested s \<or> lastEffect s \<noteq> None"

subsection \<open>The driver loop\<close>

text \<open>
  \<open>loop_top\<close> is the body of \<open>while (true)\<close> from its first line; \<open>after_cleanup\<close> is the
  rest of the body from \<open>if (shouldStop)\<close> on, entered either directly (no cleanup was
  stored, or it threw synchronously) or when the awaited cleanup has settled.  Both run
  until the coroutine suspends or returns, and give the coroutine's new frame and the
  closure variables.
\<close>

function loop_top :: "runner \<Rightarrow> frame \<times> runner"
  and after_cleanup :: "bool \<Rightarrow> effect option \<Rightarrow> runner \<Rightarrow> frame \<times> runner"
where
  "loop_top s =
     (let shouldStop = stopRequested s;
          next = lastEffect s
      in if \<not> shouldStop \<and> next = None then (Returned, s)
         else
           let s1 = s\<lparr> stopRequested := False, lastEffect := None \<rparr>
           in case currentCleanup s1 of
                Some fn \<Rightarrow>
                  let s2 = emit [CleanupBegin fn] (s1\<lparr> currentCleanup := None \<rparr>)
                  in if cthrows fn
                     then after_cleanup shouldStop next (emit [CleanupFailed fn, Reported] s2)
                     else (AtCleanup shouldStop next fn, s2)
              | None \<Rightarrow> after_cleanup shouldStop next s1)"
| "after_cleanup shouldStop next s =
     (if shouldStop then loop_top s
      else case next of
             Some e \<Rightarrow>
               let s1 = emit [SetupBegin e] s
               in if ethrows e
                  then loop_top (emit [SetupFailed e, Reported] s1)
                  else (AtSetup e, s1)
           | None \<Rightarrow> loop_top s)"
  by pat_completeness auto
termination
  by (relation "measure (\<lambda>x. case x of
          Inl s \<Rightarrow> (if pending s then 3 else 1)
        | Inr (_, _, s) \<Rightarrow> (if pending s then 4 else 2))")
     (auto simp: pending_def emit_def)

declare loop_top.simps [simp del] after_cleanup.simps [simp del]

text \<open>Resuming the coroutine \<open>i\<close> after the promise it awaited has settled.\<close>

definition cleanup_settled :: "nat \<Rightarrow> bool \<Rightarrow> runner \<Rightarrow> runner" where
  "cleanup_settled i ok s =
     (if i < length (loops s) then
        (case loops s ! i of
           AtCleanup shouldStop next fn \<Rightarrow>
             let s1 = (if ok then emit [CleanupDone fn] s
                       else emit [CleanupFailed fn, Reported] s);
                 (fr, s2) = after_cleanup shouldStop next s1
             in s2\<lparr> loops := (loops s2)[i := fr] \<rparr>
         | _ \<Rightarrow> s)
      else s)"

definition setup_settled :: "nat \<Rightarrow> settlement \<Rightarrow> runner \<Rightarrow> runner" where
  "setup_settled i r s =
     (if i < length (loops s) then
        (case loops s ! i of
           AtSetup next \<Rightarrow>
             let s1 = (case r of
                         GivesCleanup c \<Rightarrow>
                           emit [SetupDone next (Some c)] (s\<lparr> currentCleanup := Some c \<rparr>)
                       | GivesNothing \<Rightarrow> emit [SetupDone next None] s
                       | Rejects \<Rightarrow> emit [SetupFailed next, Reported] s);
                 (fr, s2) = loop_top s1
             in s2\<lparr> loops := (loops s2)[i := fr] \<rparr>
         | _ \<Rightarrow> s)
      else s)"

subsection \<open>ensureLoop, run, stop\<close>

text \<open>
  \<open>loop()\<close> is an async function: the call runs the body synchronously up to its first
  \<open>await\<close> (or to its \<open>return\<close>) and only then gives its promise back to \<open>ensureLoop\<close>.
\<close>

definition ensureLoop :: "runner \<Rightarrow> runner" where
  "ensureLoop s =
     (if isLooping s then s
      else let (fr, s1) = loop_top (s\<lparr> isLooping := True \<rparr>)
           in s1\<lparr> loops := loops s1 @ [fr] \<rparr>)"

text \<open>The callback given to \<open>finally\<close>, run once the promise of coroutine \<open>i\<close> is resolved.\<close>

definition loop_finally :: "nat \<Rightarrow> runner \<Rightarrow> runner" where
  "loop_finally i s =
     (if i < length (loops s) \<and> loops s ! i = Returned then
        let s1 = s\<lparr> loops := take i (loops s) @ drop (Suc i) (loops s), isLooping := False \<rparr>
        in if stopRequested s1 \<or> lastEffect s1 \<noteq> None then ensureLoop s1 else s1
      else s)"

definition run :: "effect \<Rightarrow> runner \<Rightarrow> runner" where
  "run effect s =
     ensureLoop (emit [RunCalled effect] s\<lparr> lastEffect := Some effect, stopRequested := False \<rparr>)"

definition stop :: "runner \<Rightarrow> runner" where
  "stop s =
     ensureLoop (emit [StopCalled] s\<lparr> lastEffect := None, stopRequested := True \<rparr>)"

subsection \<open>Interleavings\<close>

text \<open>
  Everything that can happen to a runner: a caller invokes \<open>run\<close> or \<open>stop\<close> (between two
  turns of the event loop, or from inside a setup or cleanup that is still executing), the
  promise awaited by a coroutine settles, or the \<open>finally\<close> callback of a finished
  coroutine runs.  A settlement or a callback addressed to a coroutine that is not in the
  matching frame does nothing.
\<close>

datatype action =
    Run effect
  | Stop
  | CleanupSettles nat bool
  | SetupSettles nat settlement
  | LoopFinally nat

fun step :: "action \<Rightarrow> runner \<Rightarrow> runner" where
  "step (Run e) s = run e s"
| "step Stop s = stop s"
| "step (CleanupSettles i ok) s = cleanup_settled i ok s"
| "step (SetupSettles i r) s = setup_settled i r s"
| "step (LoopFinally i) s = loop_finally i s"

fun exec :: "action list \<Rightarrow> runner \<Rightarrow> runner" where
  "exec [] s = s"
| "exec (a # as) s = exec as (step a s)"

section \<open>Notions used to state the properties\<close>

text \<open>
  The rest of one iteration once the snapshot was cleared and no stored cleanup stands in
  the way: either the snapshot's task is invoked, or the iteration ends.
\<close>

definition start_next :: "bool \<Rightarrow> effect option \<Rightarrow> runner \<Rightarrow> frame \<times> runner" where
  "start_next shouldStop next s =
     (if shouldStop then (Returned, s)
      else case next of
             None \<Rightarrow> (Returned, s)
           | Some e \<Rightarrow>
               if ethrows e then (Returned, emit [SetupBegin e, SetupFailed e, Reported] s)
               else (AtSetup e, emit [SetupBegin e] s))"

text \<open>
  The life cycle an observer expects of the events: nothing active, a setup in flight, a
  cleanup stored, a cleanup in flight.  \<open>observe\<close> is the transition an event makes, or
  \<open>None\<close> when the event is out of order; \<open>monitor\<close> runs a whole trace.
\<close>

datatype phase = Clean | Setting effect | Held cleanup | Draining cleanup

fun observe :: "phase \<Rightarrow> event \<Rightarrow> phase option" where
  "observe p (RunCalled e) = Some p"
| "observe p StopCalled = Some p"
| "observe p Reported = Some p"
| "observe p (SetupBegin e) = (if p = Clean then Some (Setting e) else None)"
| "observe p (SetupDone e r) =
     (if p = Setting e then Some (case r of None \<Rightarrow> Clean | Some c \<Rightarrow> Held c) else None)"
| "observe p (SetupFailed e) = (if p = Setting e then Some Clean else None)"
| "observe p (CleanupBegin c) = (if p = Held c then Some (Draining c) else None)"
| "observe p (CleanupDone c) = (if p = Draining c then Some Clean else None)"
| "observe p (CleanupFailed c) = (if p = Draining c then Some Clean else None)"

fun monitor :: "phase \<Rightarrow> event list \<Rightarrow> phase option" where
  "monitor p [] = Some p"
| "monitor p (e # es) = (case observe p e of None \<Rightarrow> None | Some q \<Rightarrow> monitor q es)"

definition phase_of :: "runner \<Rightarrow> phase" where
  "phase_of s =
     (case loops s of
        [AtCleanup sh nx fn] \<Rightarrow> Draining fn
      | [AtSetup e] \<Rightarrow> Setting e
      | _ \<Rightarrow> (case currentCleanup s of Some c \<Rightarrow> Held c | None \<Rightarrow> Clean))"

definition frame_ok :: "runner \<Rightarrow> frame \<Rightarrow> bool" where
  "frame_ok s fr =
     (case fr of
        AtCleanup sh nx fn \<Rightarrow> currentCleanup s = None \<and> (sh \<longleftrightarrow> nx = None)
      | AtSetup e \<Rightarrow> currentCleanup s = None
      | Returned \<Rightarrow> True)"

text \<open>What holds of the runner after every interleaving.\<close>

definition runner_inv :: "runner \<Rightarrow> bool" where
  "runner_inv s \<longleftrightarrow>
     length (loops s) \<le> 1 \<and>
     (isLooping s \<longleftrightarrow> loops s \<noteq> []) \<and>
     (loops s = [] \<longrightarrow> \<not> pending s) \<and>
     \<not> (stopRequested s \<and> lastEffect s \<noteq> None) \<and>
     (\<forall>fr \<in> set (loops s). frame_ok s fr) \<and>
     monitor Clean (trace s) = Some (phase_of s)"

text \<open>
  One round of the environment letting the runner proceed: the awaited cleanup settles,
  the awaited setup settles, the \<open>finally\<close> callback runs (each only if it is due).
\<close>

definition drain_round :: "bool \<Rightarrow> settlement \<Rightarrow> action list" where
  "drain_round ok r = [CleanupSettles 0 ok, SetupSettles 0 r, LoopFinally 0]"

fun is_request :: "action \<Rightarrow> bool" where
  "is_request (Run e) = True"
| "is_request Stop = True"
| "is_request _ = False"

text \<open>The task whose setup was invoked last in a stretch of events.\<close>

fun last_started :: "event list \<Rightarrow> effect option" where
  "last_started [] = None"
| "last_started (ev # evs) =
     (case last_started evs of
        Some e \<Rightarrow> Some e
      | None \<Rightarrow> (case ev of SetupBegin e \<Rightarrow> Some e | _ \<Rightarrow> None))"

text \<open>A coroutine waits for a cleanup while its snapshot holds a task to start afterwards.\<close>

definition holds_task :: "runner \<Rightarrow> bool" where
  "holds_task s \<longleftrightarrow> (\<exists>e c. loops s = [AtCleanup False (Some e) c])"

text \<open>No coroutine waits for a cleanup.\<close>

definition no_cleanup_frame :: "runner \<Rightarrow> bool" where
  "no_cleanup_frame s \<longleftrightarrow> (\<forall>sh nx c. loops s \<noteq> [AtCleanup sh nx c])"

text \<open>
  Where a request can be once it was made and no later request replaced it: \<open>run e\<close> is
  still in \<open>lastEffect\<close>, or in the snapshot of the iteration that waits for a cleanup, or
  \<open>e\<close> is the task started last since event \<open>n\<close>; \<open>stop\<close> is still in \<open>stopRequested\<close>, or
  in the snapshot of the iteration that waits for a cleanup, or already served.
\<close>

definition run_promise :: "nat \<Rightarrow> effect \<Rightarrow> runner \<Rightarrow> bool" where
  "run_promise n e s \<longleftrightarrow>
     n \<le> length (trace s) \<and>
     (lastEffect s = Some e \<or>
      \<not> pending s \<and> (\<exists>c. loops s = [AtCleanup False (Some e) c]) \<or>
      \<not> pending s \<and> \<not> holds_task s \<and> last_started (drop n (trace s)) = Some e)"

definition stop_promise :: "runner \<Rightarrow> bool" where
  "stop_promise s \<longleftrightarrow>
     stopRequested s \<or>
     \<not> pending s \<and> currentCleanup s = None \<and>
       (loops s = [] \<or> loops s = [Returned] \<or> (\<exists>c. loops s = [AtCleanup True None c]))"

text \<open>
  The task in the snapshot of the iteration that waits for a cleanup, if there is one; and:
  no task waits in \<open>lastEffect\<close>, and since event \<open>n\<close> no setup was invoked, or only
  that of the task \<open>x\<close> which some iteration held in its snapshot.
\<close>

definition held_task :: "runner \<Rightarrow> effect option" where
  "held_task s = (case loops s of [AtCleanup False (Some e) c] \<Rightarrow> Some e | _ \<Rightarrow> None)"

definition starts_only :: "nat \<Rightarrow> effect option \<Rightarrow> runner \<Rightarrow> bool" where
  "starts_only n x s \<longleftrightarrow>
     n \<le> length (trace s) \<and> lastEffect s = None \<and>
     (if holds_task s
      then held_task s = x \<and> last_started (drop n (trace s)) = None
      else last_started (drop n (trace s)) = None \<or> last_started (drop n (trace s)) = x)"

text \<open>The runner without its record of events.\<close>

definition untraced :: "runner \<Rightarrow> runner" where
  "untraced s = s\<lparr> trace := [] \<rparr>"

section \<open>Basic facts\<close>

lemma pending_emit [simp]: "pending (emit evs s) = pending s"
  by (simp add: pending_def emit_def)

lemma emit_emit [simp]: "emit evs (emit evs' s) = emit (evs' @ evs) s"
  by (simp add: emit_def)

lemma emit_fields [simp]:
  "lastEffect (emit evs s) = lastEffect s"
  "stopRequested (emit evs s) = stopRequested s"
  "currentCleanup (emit evs s) = currentCleanup s"
  "isLooping (emit evs s) = isLooping s"
  "loops (emit evs s) = loops s"
  "trace (emit evs s) = trace s @ evs"
  by (simp_all add: emit_def)

lemma loop_top_idle: "\<not> pending s \<Longrightarrow> loop_top s = (Returned, s)"
  by (simp add: loop_top.simps pending_def)

lemma after_cleanup_idle: "\<not> pending s \<Longrightarrow> after_cleanup sh nx s = start_next sh nx s"
  by (simp add: after_cleanup.simps start_next_def loop_top_idle split: option.splits)

lemma loop_top_pending:
  "pending s \<Longrightarrow> loop_top s =
     (let s1 = s\<lparr> stopRequested := False, lastEffect := None \<rparr> in
      case currentCleanup s of
        None \<Rightarrow> start_next (stopRequested s) (lastEffect s) s1
      | Some fn \<Rightarrow>
          if cthrows fn
          then start_next (stopRequested s) (lastEffect s)
                 (emit [CleanupBegin fn, CleanupFailed fn, Reported] (s1\<lparr> currentCleanup := None \<rparr>))
          else (AtCleanup (stopRequested s) (lastEffect s) fn,
                emit [CleanupBegin fn] (s1\<lparr> currentCleanup := None \<rparr>)))"
  apply (subst loop_top.simps)
  apply (simp add: pending_def Let_def split: option.splits)
  apply (auto simp: after_cleanup_idle pending_def)
  done

subsection \<open>The invariant\<close>

lemma monitor_append:
  "monitor p (xs @ ys) = (case monitor p xs of None \<Rightarrow> None | Some q \<Rightarrow> monitor q ys)"
  by (induction xs arbitrary: p) (auto split: option.splits)

lemma inv_init: "runner_inv init"
  by (simp add: runner_inv_def init_def pending_def phase_of_def)

lemma inv_cases:
  assumes "runner_inv s"
  obtains (Idle) "loops s = []" "\<not> isLooping s" "\<not> pending s"
  | (Busy) fr where "loops s = [fr]" "isLooping s" "frame_ok s fr"
      "stopRequested s \<longrightarrow> lastEffect s = None"
proof -
  from assms have "length (loops s) \<le> 1" by (simp add: runner_inv_def)
  then have "loops s = [] \<or> (\<exists>fr. loops s = [fr])" by (cases "loops s") auto
  then show thesis
  proof
    assume "loops s = []"
    with assms show thesis by (intro Idle) (auto simp: runner_inv_def)
  next
    assume "\<exists>fr. loops s = [fr]"
    then obtain fr where "loops s = [fr]" ..
    with assms show thesis by (intro Busy[of fr]) (auto simp: runner_inv_def)
  qed
qed

lemma inv_run: assumes "runner_inv s" shows "runner_inv (run e s)"
  using assms
proof (cases rule: inv_cases)
  case Idle
  with assms show ?thesis
    by (auto simp: runner_inv_def run_def ensureLoop_def loop_top_pending pending_def start_next_def
      phase_of_def frame_ok_def monitor_append Let_def split: option.splits)
next
  case (Busy fr)
  with assms show ?thesis
    by (cases fr) (auto simp: runner_inv_def run_def ensureLoop_def pending_def 
      phase_of_def frame_ok_def monitor_append Let_def split: option.splits)
qed


lemma loop_top_eq:
  "loop_top s =
     (if pending s then
        (let s1 = s\<lparr> stopRequested := False, lastEffect := None \<rparr> in
         case currentCleanup s of
           None \<Rightarrow> start_next (stopRequested s) (lastEffect s) s1
         | Some fn \<Rightarrow>
             if cthrows fn
             then start_next (stopRequested s) (lastEffect s)
                    (emit [CleanupBegin fn, CleanupFailed fn, Reported] (s1\<lparr> currentCleanup := None \<rparr>))
             else (AtCleanup (stopRequested s) (lastEffect s) fn,
                   emit [CleanupBegin fn] (s1\<lparr> currentCleanup := None \<rparr>)))
      else (Returned, s))"
  by (simp add: loop_top_pending loop_top_idle)

lemmas unfold_runner = run_def stop_def ensureLoop_def cleanup_settled_def setup_settled_def
  loop_finally_def loop_top_eq after_cleanup.simps start_next_def pending_def Let_def

lemma inv_stop: assumes "runner_inv s" shows "runner_inv (stop s)"
  using assms
proof (cases rule: inv_cases)
  case Idle
  with assms show ?thesis
    by (auto simp: runner_inv_def unfold_runner
      phase_of_def frame_ok_def monitor_append split: option.splits)
next
  case (Busy fr)
  with assms show ?thesis
    by (cases fr) (auto simp: runner_inv_def unfold_runner
      phase_of_def frame_ok_def monitor_append split: option.splits)
qed

lemma inv_cleanup_settled: assumes "runner_inv s" shows "runner_inv (cleanup_settled i ok s)"
  using assms
proof (cases rule: inv_cases)
  case Idle
  with assms show ?thesis
    by (simp add: cleanup_settled_def)
next
  case (Busy fr)
  with assms show ?thesis
    by (cases fr) (auto simp: runner_inv_def unfold_runner
      phase_of_def frame_ok_def monitor_append split: option.splits)
qed

lemma inv_setup_settled: assumes "runner_inv s" shows "runner_inv (setup_settled i r s)"
  using assms
proof (cases rule: inv_cases)
  case Idle
  with assms show ?thesis
    by (simp add: setup_settled_def)
next
  case (Busy fr)
  with assms show ?thesis
    by (cases fr; cases r) (auto simp: runner_inv_def unfold_runner
      phase_of_def frame_ok_def monitor_append split: option.splits)
qed

lemma inv_loop_finally: assumes "runner_inv s" shows "runner_inv (loop_finally i s)"
  using assms
proof (cases rule: inv_cases)
  case Idle
  with assms show ?thesis
    by (simp add: loop_finally_def)
next
  case (Busy fr)
  with assms show ?thesis
    by (cases fr) (auto simp: runner_inv_def unfold_runner
      phase_of_def frame_ok_def monitor_append split: option.splits)
qed

lemma inv_step: "runner_inv s \<Longrightarrow> runner_inv (step a s)"
  by (cases a) (simp_all add: inv_run inv_stop inv_cleanup_settled inv_setup_settled inv_loop_finally)

lemma inv_exec: "runner_inv s \<Longrightarrow> runner_inv (exec as s)"
  by (induction as arbitrary: s) (simp_all add: inv_step)


subsection \<open>Requests are kept\<close>

lemma last_started_append:
  "last_started (xs @ ys) =
     (case last_started ys of Some e \<Rightarrow> Some e | None \<Rightarrow> last_started xs)"
  by (induction xs) (auto split: option.splits)

lemma promise_cleanup_settled:
  assumes "runner_inv s" "run_promise n e s"
  shows "run_promise n e (cleanup_settled i ok s)"
  using assms(1)
proof (cases rule: inv_cases)
  case Idle
  with assms show ?thesis
    by (simp add: cleanup_settled_def)
next
  case (Busy fr)
  with assms show ?thesis
    by (cases fr) (auto simp: run_promise_def holds_task_def unfold_runner last_started_append
      frame_ok_def split: option.splits)
qed

lemma promise_setup_settled:
  assumes "runner_inv s" "run_promise n e s"
  shows "run_promise n e (setup_settled i r s)"
  using assms(1)
proof (cases rule: inv_cases)
  case Idle
  with assms show ?thesis
    by (simp add: setup_settled_def)
next
  case (Busy fr)
  with assms show ?thesis
    by (cases fr; cases r) (auto simp: run_promise_def holds_task_def unfold_runner last_started_append
      frame_ok_def split: option.splits)
qed

lemma promise_loop_finally:
  assumes "runner_inv s" "run_promise n e s"
  shows "run_promise n e (loop_finally i s)"
  using assms(1)
proof (cases rule: inv_cases)
  case Idle
  with assms show ?thesis
    by (simp add: loop_finally_def)
next
  case (Busy fr)
  with assms show ?thesis
    by (cases fr) (auto simp: run_promise_def holds_task_def unfold_runner last_started_append
      frame_ok_def split: option.splits)
qed

lemma promise_run:
  assumes "runner_inv s"
  shows "run_promise (length (trace s)) e (run e s)"
  using assms(1)
proof (cases rule: inv_cases)
  case Idle
  with assms show ?thesis
    by (auto simp: run_promise_def holds_task_def unfold_runner last_started_append
      frame_ok_def split: option.splits)
next
  case (Busy fr)
  with assms show ?thesis
    by (cases fr) (auto simp: run_promise_def holds_task_def unfold_runner last_started_append
      frame_ok_def split: option.splits)
qed

lemma promise_step:
  assumes "runner_inv s" "run_promise n e s" "\<not> is_request a"
  shows "run_promise n e (step a s)"
  using assms
  by (cases a) (simp_all add: promise_cleanup_settled promise_setup_settled promise_loop_finally)

lemma promise_exec:
  "runner_inv s \<Longrightarrow> run_promise n e s \<Longrightarrow> \<forall>a \<in> set as. \<not> is_request a \<Longrightarrow>
   run_promise n e (exec as s)"
  by (induction as arbitrary: s) (simp_all add: promise_step inv_step)

lemma stop_promise_step:
  assumes "runner_inv s" "stop_promise s" "\<not> is_request a"
  shows "stop_promise (step a s)"
  using assms(1)
proof (cases rule: inv_cases)
  case Idle
  with assms show ?thesis
    by (cases a) (simp_all add: cleanup_settled_def setup_settled_def loop_finally_def)
next
  case (Busy fr)
  show ?thesis
  proof (cases a)
    case (CleanupSettles i ok)
    with Busy assms show ?thesis
      by (cases fr) (auto simp: stop_promise_def unfold_runner frame_ok_def split: option.splits)
  next
    case (SetupSettles i r)
    with Busy assms show ?thesis
      by (cases fr; cases r) (auto simp: stop_promise_def unfold_runner frame_ok_def split: option.splits)
  next
    case (LoopFinally i)
    with Busy assms show ?thesis
      by (cases fr) (auto simp: stop_promise_def unfold_runner frame_ok_def split: option.splits)
  qed (use assms in simp_all)
qed

lemma stop_promise_exec:
  "runner_inv s \<Longrightarrow> stop_promise s \<Longrightarrow> \<forall>a \<in> set as. \<not> is_request a \<Longrightarrow>
   stop_promise (exec as s)"
  by (induction as arbitrary: s) (simp_all add: stop_promise_step inv_step)

lemma stop_promise_stop:
  assumes "runner_inv s"
  shows "stop_promise (stop s)"
  using assms(1)
proof (cases rule: inv_cases)
  case Idle
  with assms show ?thesis
    by (auto simp: stop_promise_def unfold_runner frame_ok_def split: option.splits)
next
  case (Busy fr)
  with assms show ?thesis
    by (cases fr) (auto simp: stop_promise_def unfold_runner frame_ok_def split: option.splits)
qed

subsection \<open>Two rounds without a new request leave the runner idle\<close>

lemma drain1_cleanup:
  assumes "runner_inv s"
  shows "no_cleanup_frame (cleanup_settled 0 ok s)"
  using assms(1)
proof (cases rule: inv_cases)
  case Idle
  with assms show ?thesis
    by (simp add: cleanup_settled_def no_cleanup_frame_def)
next
  case (Busy fr)
  with assms show ?thesis
    by (cases fr) (auto simp: no_cleanup_frame_def unfold_runner frame_ok_def split: option.splits)
qed

lemma drain1_setup:
  assumes "runner_inv s" "no_cleanup_frame s"
  shows "\<not> pending (setup_settled 0 r s) \<or> loops (setup_settled 0 r s) = [Returned]"
  using assms(1)
proof (cases rule: inv_cases)
  case Idle
  with assms show ?thesis
    by (simp add: setup_settled_def)
next
  case (Busy fr)
  with assms show ?thesis
    by (cases fr; cases r) (auto simp: no_cleanup_frame_def unfold_runner frame_ok_def split: option.splits)
qed

lemma drain1_finally:
  assumes "runner_inv s" "\<not> pending s \<or> loops s = [Returned]"
  shows "\<not> pending (loop_finally 0 s)"
  using assms(1)
proof (cases rule: inv_cases)
  case Idle
  with assms show ?thesis
    by (simp add: loop_finally_def)
next
  case (Busy fr)
  with assms show ?thesis
    by (cases fr) (auto simp: unfold_runner frame_ok_def split: option.splits)
qed

lemma drain_round_settles:
  assumes "runner_inv s"
  shows "\<not> pending (exec (drain_round ok r) s)"
proof -
  let ?s1 = "cleanup_settled 0 ok s"
  let ?s2 = "setup_settled 0 r ?s1"
  have i1: "runner_inv ?s1" using assms by (rule inv_cleanup_settled)
  have i2: "runner_inv ?s2" using i1 by (rule inv_setup_settled)
  have "no_cleanup_frame ?s1" using assms by (rule drain1_cleanup)
  with i1 have "\<not> pending ?s2 \<or> loops ?s2 = [Returned]" by (rule drain1_setup)
  with i2 have "\<not> pending (loop_finally 0 ?s2)" by (rule drain1_finally)
  then show ?thesis by (simp add: drain_round_def)
qed

lemma drain2_cleanup:
  assumes "runner_inv s" "\<not> pending s"
  shows "\<not> pending (cleanup_settled 0 ok s) \<and> no_cleanup_frame (cleanup_settled 0 ok s)"
  using assms(1)
proof (cases rule: inv_cases)
  case Idle
  with assms show ?thesis
    by (simp add: cleanup_settled_def no_cleanup_frame_def)
next
  case (Busy fr)
  with assms show ?thesis
    by (cases fr) (auto simp: no_cleanup_frame_def unfold_runner frame_ok_def split: option.splits)
qed

lemma drain2_setup:
  assumes "runner_inv s" "\<not> pending s" "no_cleanup_frame s"
  shows "\<not> pending (setup_settled 0 r s) \<and>
         (loops (setup_settled 0 r s) = [] \<or> loops (setup_settled 0 r s) = [Returned])"
  using assms(1)
proof (cases rule: inv_cases)
  case Idle
  with assms show ?thesis
    by (simp add: setup_settled_def)
next
  case (Busy fr)
  with assms show ?thesis
    by (cases fr; cases r) (auto simp: no_cleanup_frame_def unfold_runner frame_ok_def split: option.splits)
qed

lemma drain2_finally:
  assumes "\<not> pending s" "loops s = [] \<or> loops s = [Returned]"
  shows "loops (loop_finally 0 s) = []"
  using assms by (auto simp: unfold_runner)

lemma drain_round_idles:
  assumes "runner_inv s" "\<not> pending s"
  shows "loops (exec (drain_round ok r) s) = []"
proof -
  let ?s1 = "cleanup_settled 0 ok s"
  let ?s2 = "setup_settled 0 r ?s1"
  have i1: "runner_inv ?s1" using assms(1) by (rule inv_cleanup_settled)
  have "\<not> pending ?s1 \<and> no_cleanup_frame ?s1" using assms by (rule drain2_cleanup)
  with i1 have "\<not> pending ?s2 \<and> (loops ?s2 = [] \<or> loops ?s2 = [Returned])"
    by (simp add: drain2_setup)
  then have "loops (loop_finally 0 ?s2) = []" by (simp add: drain2_finally)
  then show ?thesis by (simp add: drain_round_def)
qed

lemma exec_append: "exec (as @ bs) s = exec bs (exec as s)"
  by (induction as arbitrary: s) simp_all

lemma drain_two_rounds:
  assumes "runner_inv s"
  shows "loops (exec (drain_round ok1 r1 @ drain_round ok2 r2) s) = []"
  using assms
  by (simp add: exec_append drain_round_idles drain_round_settles inv_exec)


subsection \<open>Traces that the monitor accepts\<close>



lemma monitor_needs_store:
  "monitor p (mid @ CleanupBegin c # post) = Some q \<Longrightarrow> p \<noteq> Held c \<Longrightarrow>
   \<exists>e. SetupDone e (Some c) \<in> set mid"
proof (induction mid arbitrary: p)
  case Nil
  then show ?case by simp
next
  case (Cons x mid)
  from Cons.prems(1) obtain p' where p': "observe p x = Some p'"
    and rest: "monitor p' (mid @ CleanupBegin c # post) = Some q"
    by (auto split: option.splits)
  show ?case
  proof (cases "p' = Held c")
    case True
    with p' Cons.prems(2) have "\<exists>e. x = SetupDone e (Some c)"
      by (cases x) (auto split: if_splits option.splits)
    then show ?thesis by auto
  next
    case False
    from Cons.IH[OF rest False] show ?thesis by auto
  qed
qed

lemma monitor_split:
  "monitor p (pre @ x # rest) = Some q \<Longrightarrow>
   \<exists>p1 p2. monitor p pre = Some p1 \<and> observe p1 x = Some p2 \<and> monitor p2 rest = Some q"
  by (auto simp: monitor_append split: option.splits)

lemma stop_served:
  "runner_inv t \<Longrightarrow> stop_promise t \<Longrightarrow> loops t = [] \<Longrightarrow> currentCleanup t = None"
  by (auto simp: stop_promise_def runner_inv_def pending_def)

lemma run_served:
  "runner_inv t \<Longrightarrow> run_promise n e t \<Longrightarrow> loops t = [] \<Longrightarrow>
   last_started (drop n (trace t)) = Some e"
  by (auto simp: run_promise_def runner_inv_def pending_def)

lemma reachable_inv: "runner_inv (exec as init)"
  by (simp add: inv_exec inv_init)

lemma reachable_monitor: "\<exists>q. monitor Clean (trace (exec as init)) = Some q"
  using reachable_inv[of as] by (simp add: runner_inv_def)


lemmas eval_runner = init_def run_def stop_def ensureLoop_def cleanup_settled_def
  setup_settled_def loop_finally_def loop_top.simps after_cleanup.simps emit_def

subsection \<open>Shutdown\<close>

lemma starts_only_step:
  assumes "runner_inv s" "starts_only n x s" "\<not> is_request a"
  shows "starts_only n x (step a s)"
  using assms(1)
proof (cases rule: inv_cases)
  case Idle
  with assms show ?thesis
    by (cases a) (simp_all add: cleanup_settled_def setup_settled_def loop_finally_def)
next
  case (Busy fr)
  show ?thesis
  proof (cases a)
    case (CleanupSettles i ok)
    with Busy assms show ?thesis
      by (cases fr) (auto simp: starts_only_def holds_task_def held_task_def unfold_runner
          frame_ok_def last_started_append split: option.splits if_splits)
  next
    case (SetupSettles i r)
    with Busy assms show ?thesis
      by (cases fr; cases r) (auto simp: starts_only_def holds_task_def held_task_def
          unfold_runner frame_ok_def last_started_append split: option.splits if_splits)
  next
    case (LoopFinally i)
    with Busy assms show ?thesis
      by (cases fr) (auto simp: starts_only_def holds_task_def held_task_def unfold_runner
          frame_ok_def last_started_append split: option.splits if_splits)
  qed (use assms in simp_all)
qed

lemma starts_only_exec:
  "runner_inv s \<Longrightarrow> starts_only n x s \<Longrightarrow> \<forall>a \<in> set as. \<not> is_request a \<Longrightarrow>
   starts_only n x (exec as s)"
  by (induction as arbitrary: s) (simp_all add: starts_only_step inv_step)

lemma starts_only_stop:
  assumes "runner_inv s"
  shows "starts_only (length (trace s)) (held_task s) (stop s)"
  using assms(1)
proof (cases rule: inv_cases)
  case Idle
  with assms show ?thesis
    by (auto simp: starts_only_def holds_task_def held_task_def unfold_runner frame_ok_def
        split: option.splits)
next
  case (Busy fr)
  with assms show ?thesis
    by (cases fr) (auto simp: starts_only_def holds_task_def held_task_def unfold_runner
        frame_ok_def split: option.splits)
qed

lemma starts_only_result:
  "starts_only n x s \<Longrightarrow>
   last_started (drop n (trace s)) = None \<or> last_started (drop n (trace s)) = x"
  by (auto simp: starts_only_def split: if_splits)


lemma stop_eq:
  assumes "runner_inv r"
  shows "stop r =
     (if isLooping r
      then r\<lparr> lastEffect := None, stopRequested := True, trace := trace r @ [StopCalled] \<rparr>
      else case currentCleanup r of
             None \<Rightarrow> r\<lparr> lastEffect := None, stopRequested := False,
                       isLooping := True, loops := [Returned],
                       trace := trace r @ [StopCalled] \<rparr>
           | Some c \<Rightarrow>
               if cthrows c
               then r\<lparr> lastEffect := None, stopRequested := False,
                      currentCleanup := None, isLooping := True, loops := [Returned],
                      trace := trace r @ [StopCalled, CleanupBegin c, CleanupFailed c, Reported] \<rparr>
               else r\<lparr> lastEffect := None, stopRequested := False,
                      currentCleanup := None, isLooping := True,
                      loops := [AtCleanup True None c],
                      trace := trace r @ [StopCalled, CleanupBegin c] \<rparr>)"
  using assms
proof (cases rule: inv_cases)
  case Idle
  then have "lastEffect r = None" "\<not> stopRequested r"
    by (simp_all add: pending_def)
  with Idle show ?thesis
    by (cases r) (auto simp: unfold_runner split: option.splits)
next
  case (Busy fr)
  then show ?thesis
    by (simp add: stop_def ensureLoop_def emit_def)
qed

lemma shutdown_observed:
  "stopRequested s \<and> lastEffect s = None \<Longrightarrow>
   loop_top s =
     (case currentCleanup s of
        None \<Rightarrow> (Returned, s\<lparr> stopRequested := False, lastEffect := None \<rparr>)
      | Some c \<Rightarrow>
          if cthrows c
          then (Returned, emit [CleanupBegin c, CleanupFailed c, Reported]
                            (s\<lparr> stopRequested := False, lastEffect := None, currentCleanup := None \<rparr>))
          else (AtCleanup True None c, emit [CleanupBegin c]
                            (s\<lparr> stopRequested := False, lastEffect := None, currentCleanup := None \<rparr>)))"
  by (auto simp: unfold_runner split: option.splits)

lemma shutdown_cleanup_settles:
  assumes "runner_inv r" "loops r = [AtCleanup True None c]" "\<not> pending r"
  shows "exec [CleanupSettles 0 ok, LoopFinally 0] r =
           r\<lparr> isLooping := False, loops := [],
              trace := trace r @ (if ok then [CleanupDone c] else [CleanupFailed c, Reported]) \<rparr>"
  using assms
  by (cases r) (auto simp: unfold_runner)

lemma restart_after_idle:
  assumes "runner_inv t" "loops t = []" "currentCleanup t = None"
  shows "isLooping (run e t) \<and>
         trace (run e t) = trace t @ RunCalled e # SetupBegin e #
            (if ethrows e then [SetupFailed e, Reported] else [])"
  using assms(1)
proof (cases rule: inv_cases)
  case Idle
  with assms show ?thesis
    by (auto simp: unfold_runner)
next
  case (Busy fr)
  with assms show ?thesis by simp
qed


subsection \<open>Failures\<close>

lemma cleanup_failure_like_success:
  assumes "runner_inv r" "loops r = [AtCleanup sh nx fn]"
  shows "untraced (cleanup_settled 0 False r) = untraced (cleanup_settled 0 True r) \<and>
         (\<exists>rest. trace (cleanup_settled 0 False r) = trace r @ CleanupFailed fn # Reported # rest \<and>
                 trace (cleanup_settled 0 True r) = trace r @ CleanupDone fn # rest)"
  using assms
  by (auto simp: untraced_def unfold_runner runner_inv_def frame_ok_def split: option.splits)

lemma cleanup_failure_next_starts:
  assumes "runner_inv r" "loops r = [AtCleanup False (Some e) fn]"
  shows "\<exists>rest. trace (cleanup_settled 0 False r) =
            trace r @ CleanupFailed fn # Reported # SetupBegin e # rest"
  using assms
  by (auto simp: unfold_runner runner_inv_def frame_ok_def split: option.splits)

lemma cleanup_failure_idles:
  assumes "runner_inv r" "loops r = [AtCleanup True None fn]" "\<not> pending r"
  shows "loops (exec [CleanupSettles 0 False, LoopFinally 0] r) = []"
  using assms
  by (auto simp: unfold_runner runner_inv_def frame_ok_def split: option.splits)

lemma cleanup_sync_throw:
  assumes "runner_inv r" "\<not> isLooping r" "currentCleanup r = Some c" "cthrows c"
  shows "(\<exists>rest. trace (run e r) =
            trace r @ RunCalled e # CleanupBegin c # CleanupFailed c # Reported #
              SetupBegin e # rest) \<and> currentCleanup (run e r) = None"
  using assms
  by (auto simp: unfold_runner runner_inv_def frame_ok_def split: option.splits)

lemma setup_failure_like_nothing:
  assumes "runner_inv r" "loops r = [AtSetup e]"
  shows "currentCleanup r = None \<and> currentCleanup (setup_settled 0 Rejects r) = None \<and>
         untraced (setup_settled 0 Rejects r) = untraced (setup_settled 0 GivesNothing r) \<and>
         (\<exists>rest. trace (setup_settled 0 Rejects r) = trace r @ SetupFailed e # Reported # rest \<and>
                 trace (setup_settled 0 GivesNothing r) = trace r @ SetupDone e None # rest \<and>
                 (\<forall>c. CleanupBegin c \<notin> set rest))"
  using assms
  by (auto simp: untraced_def unfold_runner runner_inv_def frame_ok_def split: option.splits)

lemma setup_failure_pending_starts:
  assumes "runner_inv r" "loops r = [AtSetup e]" "lastEffect r = Some e2"
  shows "trace (setup_settled 0 Rejects r) =
           trace r @ SetupFailed e # Reported # SetupBegin e2 #
             (if ethrows e2 then [SetupFailed e2, Reported] else [])"
  using assms
  by (auto simp: unfold_runner runner_inv_def frame_ok_def split: option.splits)

lemma setup_failure_later_run:
  assumes "runner_inv r" "loops r = [AtSetup e]" "lastEffect r = None" "\<not> stopRequested r"
  shows "loops (setup_settled 0 Rejects r) = [Returned] \<and>
         trace (exec [Run e2, LoopFinally 0] (setup_settled 0 Rejects r)) =
           trace r @ SetupFailed e # Reported # RunCalled e2 # SetupBegin e2 #
             (if ethrows e2 then [SetupFailed e2, Reported] else []) \<and>
         trace (exec [LoopFinally 0, Run e2] (setup_settled 0 Rejects r)) =
           trace r @ SetupFailed e # Reported # RunCalled e2 # SetupBegin e2 #
             (if ethrows e2 then [SetupFailed e2, Reported] else [])"
  using assms
  by (auto simp: unfold_runner runner_inv_def frame_ok_def split: option.splits)

lemma setup_sync_throw:
  assumes "runner_inv r" "\<not> isLooping r" "currentCleanup r = None" "ethrows e"
  shows "trace (run e r) = trace r @ [RunCalled e, SetupBegin e, SetupFailed e, Reported] \<and>
         currentCleanup (run e r) = None \<and> loops (run e r) = [Returned]"
  using assms
  by (auto simp: unfold_runner runner_inv_def frame_ok_def split: option.splits)


subsection \<open>Two scenarios of the test suite\<close>

text \<open>
  The hook calls \<open>run\<close> when it mounts, \<open>stop\<close> and then \<open>run\<close> when its dependencies
  change, and \<open>stop\<close> when it unmounts.  ``Next waits for previous cleanup to finish'':
  with A mounted and its cleanup held back, a change to B starts nothing; once the cleanup
  is released, B starts.
\<close>

lemma scenario_sequential_before_release:
  "trace (exec [Run (Effect 1 False), SetupSettles 0 (GivesCleanup (Cleanup 10 False)),
                LoopFinally 0, Stop, Run (Effect 2 False)] init) =
     [RunCalled (Effect 1 False), SetupBegin (Effect 1 False),
      SetupDone (Effect 1 False) (Some (Cleanup 10 False)),
      StopCalled, CleanupBegin (Cleanup 10 False), RunCalled (Effect 2 False)]"
  by (simp add: eval_runner)

lemma scenario_sequential_after_release:
  "trace (exec [Run (Effect 1 False), SetupSettles 0 (GivesCleanup (Cleanup 10 False)),
                LoopFinally 0, Stop, Run (Effect 2 False), CleanupSettles 0 True] init) =
     [RunCalled (Effect 1 False), SetupBegin (Effect 1 False),
      SetupDone (Effect 1 False) (Some (Cleanup 10 False)),
      StopCalled, CleanupBegin (Cleanup 10 False), RunCalled (Effect 2 False),
      CleanupDone (Cleanup 10 False), SetupBegin (Effect 2 False)]"
  by (simp add: eval_runner)

text \<open>``Behaves like useEffect'': mounting with A and unmounting sets A up and cleans it up.\<close>

lemma scenario_mount_unmount:
  "exec [Run (Effect 1 False), SetupSettles 0 (GivesCleanup (Cleanup 10 False)),
         LoopFinally 0, Stop, CleanupSettles 0 True, LoopFinally 0] init =
     init\<lparr> trace :=
       [RunCalled (Effect 1 False), SetupBegin (Effect 1 False),
        SetupDone (Effect 1 False) (Some (Cleanup 10 False)),
        StopCalled, CleanupBegin (Cleanup 10 False), CleanupDone (Cleanup 10 False)] \<rparr>"
  by (simp add: eval_runner)

section \<open>The properties\<close>

subsection \<open>C1: a cleanup completes before the next setup begins\<close>




subsection \<open>C2: the task that starts need not be the newest one\<close>

text \<open>
  C2.  The loop takes its snapshot \<open>next = lastEffect\<close> before it awaits the stored
  cleanup, and invokes \<open>next\<close> after that await without reading \<open>lastEffect\<close> again.

  First schedule: task 1 is set up and leaves cleanup 10, and the runner goes idle;
  \<open>run\<close> is called with task 2, which puts task 2 in the snapshot and invokes cleanup
  10; \<open>run\<close> is called with task 3 while cleanup 10 is awaited; cleanup 10 settles.  The
  setup invoked then is that of task 2, although task 3 was submitted after it and before
  it began, and task 3 is still waiting in \<open>lastEffect\<close>.

  Second schedule, as the hook produces it (every change of dependencies is \<open>stop\<close>
  followed by \<open>run\<close>): the hook mounts with task 1; the dependencies change to task 2
  while the setup of task 1 is awaited; that setup completes with cleanup 10, the next
  iteration takes task 2 into its snapshot and invokes cleanup 10; the dependencies change
  to task 3 while cleanup 10 is awaited; cleanup 10 settles.  Again the setup of task 2 is
  invoked.
\<close>

theorem stale_task_starts:
  "trace (exec [Run (Effect 1 False), SetupSettles 0 (GivesCleanup (Cleanup 10 False)),
                LoopFinally 0, Run (Effect 2 False), Run (Effect 3 False),
                CleanupSettles 0 True] init) =
     [RunCalled (Effect 1 False), SetupBegin (Effect 1 False),
      SetupDone (Effect 1 False) (Some (Cleanup 10 False)),
      RunCalled (Effect 2 False), CleanupBegin (Cleanup 10 False),
      RunCalled (Effect 3 False), CleanupDone (Cleanup 10 False),
      SetupBegin (Effect 2 False)] \<and>
   lastEffect (exec [Run (Effect 1 False), SetupSettles 0 (GivesCleanup (Cleanup 10 False)),
                LoopFinally 0, Run (Effect 2 False), Run (Effect 3 False),
                CleanupSettles 0 True] init) = Some (Effect 3 False) \<and>
   loops (exec [Run (Effect 1 False), SetupSettles 0 (GivesCleanup (Cleanup 10 False)),
                LoopFinally 0, Run (Effect 2 False), Run (Effect 3 False),
                CleanupSettles 0 True] init) = [AtSetup (Effect 2 False)] \<and>
   trace (exec [Run (Effect 1 False), Stop, Run (Effect 2 False),
                SetupSettles 0 (GivesCleanup (Cleanup 10 False)),
                Stop, Run (Effect 3 False), CleanupSettles 0 True] init) =
     [RunCalled (Effect 1 False), SetupBegin (Effect 1 False),
      StopCalled, RunCalled (Effect 2 False),
      SetupDone (Effect 1 False) (Some (Cleanup 10 False)), CleanupBegin (Cleanup 10 False),
      StopCalled, RunCalled (Effect 3 False),
      CleanupDone (Cleanup 10 False), SetupBegin (Effect 2 False)] \<and>
   lastEffect (exec [Run (Effect 1 False), Stop, Run (Effect 2 False),
                SetupSettles 0 (GivesCleanup (Cleanup 10 False)),
                Stop, Run (Effect 3 False), CleanupSettles 0 True] init)
     = Some (Effect 3 False)"
  by (simp add: eval_runner)

subsection \<open>C3: when the loop exits and the runner idles\<close>

text \<open>
  C3, as stated, fails: after task 1 was set up and left cleanup 10, the loop finds no
  request, exits and the runner goes idle while cleanup 10 is still stored.
\<close>

theorem idle_with_stored_cleanup:
  "loops (exec [Run (Effect 1 False), SetupSettles 0 (GivesCleanup (Cleanup 10 False))] init)
     = [Returned] \<and>
   currentCleanup
     (exec [Run (Effect 1 False), SetupSettles 0 (GivesCleanup (Cleanup 10 False))] init)
     = Some (Cleanup 10 False) \<and>
   loops (exec [Run (Effect 1 False), SetupSettles 0 (GivesCleanup (Cleanup 10 False)),
                LoopFinally 0] init) = [] \<and>
   isLooping (exec [Run (Effect 1 False), SetupSettles 0 (GivesCleanup (Cleanup 10 False)),
                LoopFinally 0] init) = False \<and>
   currentCleanup (exec [Run (Effect 1 False), SetupSettles 0 (GivesCleanup (Cleanup 10 False)),
                LoopFinally 0] init) = Some (Cleanup 10 False)"
  by (simp add: eval_runner)

text \<open>
  C3, amended.  The loop exits only in a state with no pending task and no pending
  shutdown request, and after every interleaving the runner is idle only in such a state.
  A stored cleanup does not keep the loop from exiting.  It is drained when a later \<open>stop\<close>
  or \<open>run\<close> starts the loop again: the cleanup is taken out of \<open>currentCleanup\<close> and
  invoked before anything else.  Once a \<open>stop\<close> was made and the awaited promises have
  settled, the runner is idle with no cleanup stored.
\<close>

theorem idle_means_no_request:
  "(fst (loop_top s) = Returned \<longrightarrow>
      lastEffect (snd (loop_top s)) = None \<and> \<not> stopRequested (snd (loop_top s))) \<and>
   (\<not> isLooping (exec as init) \<longrightarrow>
      lastEffect (exec as init) = None \<and> \<not> stopRequested (exec as init)) \<and>
   (\<not> isLooping (exec as init) \<and> currentCleanup (exec as init) = Some c \<longrightarrow>
      (\<exists>rest. trace (stop (exec as init)) =
                trace (exec as init) @ StopCalled # CleanupBegin c # rest) \<and>
      currentCleanup (stop (exec as init)) = None \<and>
      (\<exists>rest. trace (run e (exec as init)) =
                trace (exec as init) @ RunCalled e # CleanupBegin c # rest) \<and>
      currentCleanup (run e (exec as init)) = None) \<and>
   loops (exec (drain_round ok1 r1 @ drain_round ok2 r2) (stop (exec as init))) = [] \<and>
   currentCleanup (exec (drain_round ok1 r1 @ drain_round ok2 r2) (stop (exec as init))) = None"
proof -
  let ?r = "exec as init"
  let ?ds = "drain_round ok1 r1 @ drain_round ok2 r2"
  have i: "runner_inv ?r" by (rule reachable_inv)
  have 1: "fst (loop_top s) = Returned \<longrightarrow>
      lastEffect (snd (loop_top s)) = None \<and> \<not> stopRequested (snd (loop_top s))"
    by (auto simp: unfold_runner split: option.splits)
  have 2: "\<not> isLooping ?r \<longrightarrow> lastEffect ?r = None \<and> \<not> stopRequested ?r"
    using i by (auto simp: runner_inv_def pending_def)
  have 3: "\<not> isLooping ?r \<and> currentCleanup ?r = Some c \<longrightarrow>
      (\<exists>rest. trace (stop ?r) = trace ?r @ StopCalled # CleanupBegin c # rest) \<and>
      currentCleanup (stop ?r) = None \<and>
      (\<exists>rest. trace (run e ?r) = trace ?r @ RunCalled e # CleanupBegin c # rest) \<and>
      currentCleanup (run e ?r) = None"
    using i by (cases rule: inv_cases) (auto simp: unfold_runner)
  have ist: "runner_inv (stop ?r)" using i by (rule inv_stop)
  have q: "\<forall>a \<in> set ?ds. \<not> is_request a" by (simp add: drain_round_def)
  have idle: "loops (exec ?ds (stop ?r)) = []" using ist by (rule drain_two_rounds)
  have "stop_promise (exec ?ds (stop ?r))"
    using ist stop_promise_stop[OF i] q by (rule stop_promise_exec)
  moreover have "runner_inv (exec ?ds (stop ?r))" using ist by (rule inv_exec)
  ultimately have 4: "currentCleanup (exec ?ds (stop ?r)) = None"
    using idle by (simp add: stop_served)
  from 1 2 3 idle 4 show ?thesis by blast
qed

theorem idle_means_no_request_witness:
  "fst (loop_top init) = Returned \<and>
   lastEffect (snd (loop_top init)) = None \<and>
   isLooping (exec [Run (Effect 1 False), SetupSettles 0 (GivesCleanup (Cleanup 10 False)),
                LoopFinally 0] init) = False \<and>
   currentCleanup (exec [Run (Effect 1 False), SetupSettles 0 (GivesCleanup (Cleanup 10 False)),
                LoopFinally 0] init) = Some (Cleanup 10 False) \<and>
   lastEffect (exec [Run (Effect 1 False), SetupSettles 0 (GivesCleanup (Cleanup 10 False)),
                LoopFinally 0] init) = None \<and>
   currentCleanup (stop (exec [Run (Effect 1 False),
                SetupSettles 0 (GivesCleanup (Cleanup 10 False)), LoopFinally 0] init)) = None \<and>
   currentCleanup (run (Effect 2 False) (exec [Run (Effect 1 False),
                SetupSettles 0 (GivesCleanup (Cleanup 10 False)), LoopFinally 0] init)) = None \<and>
   currentCleanup (exec (drain_round True GivesNothing @ drain_round True GivesNothing)
     (stop (exec [Run (Effect 1 False),
                SetupSettles 0 (GivesCleanup (Cleanup 10 False)), LoopFinally 0] init))) = None"
proof -
  let ?as = "[Run (Effect 1 False), SetupSettles 0 (GivesCleanup (Cleanup 10 False)),
                LoopFinally 0]"
  have h1: "fst (loop_top init) = Returned"
    by (simp add: eval_runner)
  have h2: "\<not> isLooping (exec ?as init)"
    by (simp add: eval_runner)
  have h3: "currentCleanup (exec ?as init) = Some (Cleanup 10 False)"
    by (simp add: eval_runner)
  from idle_means_no_request[of init ?as "Cleanup 10 False" "Effect 2 False"
      True GivesNothing True GivesNothing] h1 h2 h3
  show ?thesis by blast
qed

subsection \<open>C4: what a call of run does\<close>

text \<open>
  C4, as stated, fails: \<open>loop()\<close> runs up to its first \<open>await\<close> inside the call of
  \<open>ensureLoop\<close>, so \<open>run\<close> on an idle runner invokes the task's setup before it returns,
  or the stored cleanup when there is one; and the task is no longer in \<open>lastEffect\<close> when
  \<open>run\<close> returns.
\<close>

theorem run_invokes_task_code:
  "trace (run (Effect 1 False) init) =
     [RunCalled (Effect 1 False), SetupBegin (Effect 1 False)] \<and>
   lastEffect (run (Effect 1 False) init) = None \<and>
   trace (run (Effect 2 False)
       (exec [Run (Effect 1 False), SetupSettles 0 (GivesCleanup (Cleanup 10 False)),
              LoopFinally 0] init)) =
     [RunCalled (Effect 1 False), SetupBegin (Effect 1 False),
      SetupDone (Effect 1 False) (Some (Cleanup 10 False)),
      RunCalled (Effect 2 False), CleanupBegin (Cleanup 10 False)]"
  by (simp add: eval_runner)

text \<open>
  C4, amended.  \<open>run(task)\<close> writes the task to \<open>lastEffect\<close>, clears \<open>stopRequested\<close>
  and makes sure the loop is running; it returns a runner in every case, and what the
  code it invokes throws is caught and reported by the loop.  While a loop is running the
  call does nothing else: the task stays in \<open>lastEffect\<close> and no task or cleanup code is
  invoked.  On an idle runner the call itself runs the first iteration up to its first
  \<open>await\<close>: the task moves from \<open>lastEffect\<close> into the snapshot, the stored cleanup is
  taken out and invoked if there is one, and otherwise (or when that cleanup throws
  at once) the task's setup is invoked.  The call does not wait for what it invoked to
  settle.
\<close>

theorem run_starts_first_iteration:
  "run e (exec as init) =
     (if isLooping (exec as init)
      then (exec as init)\<lparr> lastEffect := Some e, stopRequested := False,
                            trace := trace (exec as init) @ [RunCalled e] \<rparr>
      else case currentCleanup (exec as init) of
             None \<Rightarrow>
               if ethrows e
               then (exec as init)\<lparr> lastEffect := None, stopRequested := False,
                      isLooping := True, loops := [Returned],
                      trace := trace (exec as init) @
                        [RunCalled e, SetupBegin e, SetupFailed e, Reported] \<rparr>
               else (exec as init)\<lparr> lastEffect := None, stopRequested := False,
                      isLooping := True, loops := [AtSetup e],
                      trace := trace (exec as init) @ [RunCalled e, SetupBegin e] \<rparr>
           | Some c \<Rightarrow>
               if cthrows c
               then if ethrows e
                    then (exec as init)\<lparr> lastEffect := None, stopRequested := False,
                           currentCleanup := None, isLooping := True,
                           loops := [Returned],
                           trace := trace (exec as init) @
                             [RunCalled e, CleanupBegin c, CleanupFailed c, Reported,
                              SetupBegin e, SetupFailed e, Reported] \<rparr>
                    else (exec as init)\<lparr> lastEffect := None, stopRequested := False,
                           currentCleanup := None, isLooping := True,
                           loops := [AtSetup e],
                           trace := trace (exec as init) @
                             [RunCalled e, CleanupBegin c, CleanupFailed c, Reported,
                              SetupBegin e] \<rparr>
               else (exec as init)\<lparr> lastEffect := None, stopRequested := False,
                           currentCleanup := None, isLooping := True,
                      loops := [AtCleanup False (Some e) c],
                      trace := trace (exec as init) @ [RunCalled e, CleanupBegin c] \<rparr>)"
proof -
  let ?r = "exec as init"
  have "runner_inv ?r" by (rule reachable_inv)
  then show ?thesis
  proof (cases rule: inv_cases)
    case Idle
    then have "lastEffect ?r = None" "\<not> stopRequested ?r"
      by (simp_all add: pending_def)
    with Idle show ?thesis
      by (cases ?r) (auto simp: unfold_runner split: option.splits)
  next
    case (Busy fr)
    then show ?thesis
      by (simp add: run_def ensureLoop_def emit_def)
  qed
qed

theorem run_starts_first_iteration_witness:
  "run (Effect 1 False) (exec [] init) =
     \<lparr> lastEffect = None, stopRequested = False, currentCleanup = None, isLooping = True,
       loops = [AtSetup (Effect 1 False)],
       trace = [RunCalled (Effect 1 False), SetupBegin (Effect 1 False)] \<rparr> \<and>
   run (Effect 2 False) (exec [Run (Effect 1 False)] init) =
     \<lparr> lastEffect = Some (Effect 2 False), stopRequested = False, currentCleanup = None,
       isLooping = True, loops = [AtSetup (Effect 1 False)],
       trace = [RunCalled (Effect 1 False), SetupBegin (Effect 1 False),
                RunCalled (Effect 2 False)] \<rparr>"
proof -
  have a: "exec [] init = init" by simp
  have b: "exec [Run (Effect 1 False)] init =
     \<lparr> lastEffect = None, stopRequested = False, currentCleanup = None, isLooping = True,
       loops = [AtSetup (Effect 1 False)],
       trace = [RunCalled (Effect 1 False), SetupBegin (Effect 1 False)] \<rparr>"
    by (simp add: eval_runner)
  show ?thesis
    unfolding run_starts_first_iteration[of "Effect 1 False" "[]"]
      run_starts_first_iteration[of "Effect 2 False" "[Run (Effect 1 False)]"]
    unfolding a b by (simp add: init_def)
qed

subsection \<open>C5: what a call of stop does\<close>

text \<open>
  C5.  \<open>stop()\<close> clears \<open>lastEffect\<close> and sets \<open>stopRequested\<close>, but a task that the
  running iteration took into its snapshot \<open>next\<close> before it awaited the stored cleanup is
  out of its reach: after that await the loop uses the snapshot (\<open>shouldStop\<close> false,
  \<open>next\<close> the task) and reads neither variable again.  This is the defect of C2, met by
  \<open>stop\<close> instead of a second \<open>run\<close>.

  First schedule: task 1 is set up and leaves cleanup 10, and the runner goes idle;
  \<open>run\<close> is called with task 2, which puts task 2 in the snapshot and invokes cleanup
  10; \<open>stop\<close> is called while cleanup 10 is awaited; cleanup 10 settles.  The setup of
  task 2, which had not started when \<open>stop\<close> was called, is invoked then, with no \<open>run\<close>
  after the \<open>stop\<close> and while \<open>stopRequested\<close> is still set.

  Second schedule, as the hook produces it: the hook mounts with task 1; the dependencies
  change to task 2 while the setup of task 1 is awaited (\<open>stop\<close>, \<open>run\<close>); that setup
  completes with cleanup 10, the next iteration takes task 2 into its snapshot and invokes
  cleanup 10; the hook unmounts while cleanup 10 is awaited (\<open>stop\<close>); cleanup 10 settles.
  Again the setup of task 2 is invoked, after the unmount.
\<close>

theorem stop_keeps_snapshot_task:
  "trace (exec [Run (Effect 1 False), SetupSettles 0 (GivesCleanup (Cleanup 10 False)),
                LoopFinally 0, Run (Effect 2 False), Stop, CleanupSettles 0 True] init) =
     [RunCalled (Effect 1 False), SetupBegin (Effect 1 False),
      SetupDone (Effect 1 False) (Some (Cleanup 10 False)),
      RunCalled (Effect 2 False), CleanupBegin (Cleanup 10 False),
      StopCalled, CleanupDone (Cleanup 10 False), SetupBegin (Effect 2 False)] \<and>
   loops (exec [Run (Effect 1 False), SetupSettles 0 (GivesCleanup (Cleanup 10 False)),
                LoopFinally 0, Run (Effect 2 False), Stop, CleanupSettles 0 True] init) =
     [AtSetup (Effect 2 False)] \<and>
   stopRequested (exec [Run (Effect 1 False), SetupSettles 0 (GivesCleanup (Cleanup 10 False)),
                LoopFinally 0, Run (Effect 2 False), Stop, CleanupSettles 0 True] init) \<and>
   trace (exec [Run (Effect 1 False), Stop, Run (Effect 2 False),
                SetupSettles 0 (GivesCleanup (Cleanup 10 False)),
                Stop, CleanupSettles 0 True] init) =
     [RunCalled (Effect 1 False), SetupBegin (Effect 1 False),
      StopCalled, RunCalled (Effect 2 False),
      SetupDone (Effect 1 False) (Some (Cleanup 10 False)), CleanupBegin (Cleanup 10 False),
      StopCalled, CleanupDone (Cleanup 10 False), SetupBegin (Effect 2 False)] \<and>
   loops (exec [Run (Effect 1 False), Stop, Run (Effect 2 False),
                SetupSettles 0 (GivesCleanup (Cleanup 10 False)),
                Stop, CleanupSettles 0 True] init) = [AtSetup (Effect 2 False)] \<and>
   stopRequested (exec [Run (Effect 1 False), Stop, Run (Effect 2 False),
                SetupSettles 0 (GivesCleanup (Cleanup 10 False)),
                Stop, CleanupSettles 0 True] init)"
  by (simp add: eval_runner)

text \<open>
  What \<open>stop()\<close> does do, after every interleaving.  It clears \<open>lastEffect\<close>, so a task
  that waits there is discarded, and makes sure the loop is running; while a loop is
  running it only sets \<open>stopRequested\<close> besides, and on an idle runner the loop it starts
  takes the request at once.  An iteration that finds \<open>stopRequested\<close> set (and so no task
  in \<open>lastEffect\<close>) takes the stored cleanup out, invokes it and awaits it, and invokes no
  setup; when the cleanup has settled and no request has arrived, the loop exits and the
  runner is idle.  After \<open>stop\<close>, and until \<open>run\<close> is called again, the only setup that
  can be invoked is that of the task held in a snapshot, as above.  Once the awaited
  promises have settled the runner is idle with no cleanup stored, and \<open>run\<close> then starts
  the loop again and the setup of its task with it.
\<close>

lemma stop_retires_runner:
  "stop (exec as init) =
     (if isLooping (exec as init)
      then (exec as init)\<lparr> lastEffect := None, stopRequested := True,
                            trace := trace (exec as init) @ [StopCalled] \<rparr>
      else case currentCleanup (exec as init) of
             None \<Rightarrow> (exec as init)\<lparr> lastEffect := None, stopRequested := False,
                       isLooping := True, loops := [Returned],
                       trace := trace (exec as init) @ [StopCalled] \<rparr>
           | Some c \<Rightarrow>
               if cthrows c
               then (exec as init)\<lparr> lastEffect := None, stopRequested := False,
                      currentCleanup := None, isLooping := True,
                      loops := [Returned],
                      trace := trace (exec as init) @
                        [StopCalled, CleanupBegin c, CleanupFailed c, Reported] \<rparr>
               else (exec as init)\<lparr> lastEffect := None, stopRequested := False,
                      currentCleanup := None, isLooping := True,
                      loops := [AtCleanup True None c],
                      trace := trace (exec as init) @ [StopCalled, CleanupBegin c] \<rparr>) \<and>
   lastEffect (stop (exec as init)) = None \<and>
   isLooping (stop (exec as init)) \<and>
   length (loops (stop (exec as init))) = 1 \<and>
   (stopRequested s \<and> lastEffect s = None \<longrightarrow>
      loop_top s =
        (case currentCleanup s of
           None \<Rightarrow> (Returned, s\<lparr> stopRequested := False, lastEffect := None \<rparr>)
         | Some c \<Rightarrow>
             if cthrows c
             then (Returned, emit [CleanupBegin c, CleanupFailed c, Reported]
                     (s\<lparr> stopRequested := False, lastEffect := None, currentCleanup := None \<rparr>))
             else (AtCleanup True None c, emit [CleanupBegin c]
                     (s\<lparr> stopRequested := False, lastEffect := None, currentCleanup := None \<rparr>)))) \<and>
   (loops (exec as init) = [AtCleanup True None fn] \<and>
    lastEffect (exec as init) = None \<and> \<not> stopRequested (exec as init) \<longrightarrow>
      exec [CleanupSettles 0 ok, LoopFinally 0] (exec as init) =
        (exec as init)\<lparr> isLooping := False, loops := [],
           trace := trace (exec as init) @
             (if ok then [CleanupDone fn] else [CleanupFailed fn, Reported]) \<rparr>) \<and>
   ((\<forall>a \<in> set ds. \<not> is_request a) \<longrightarrow>
      last_started (drop (length (trace (exec as init)))
                      (trace (exec ds (stop (exec as init))))) = None \<or>
      last_started (drop (length (trace (exec as init)))
                      (trace (exec ds (stop (exec as init))))) = held_task (exec as init)) \<and>
   loops (exec (drain_round ok1 r1 @ drain_round ok2 r2) (stop (exec as init))) = [] \<and>
   isLooping (exec (drain_round ok1 r1 @ drain_round ok2 r2) (stop (exec as init))) = False \<and>
   currentCleanup (exec (drain_round ok1 r1 @ drain_round ok2 r2) (stop (exec as init))) = None \<and>
   isLooping (run e (exec (drain_round ok1 r1 @ drain_round ok2 r2) (stop (exec as init)))) \<and>
   trace (run e (exec (drain_round ok1 r1 @ drain_round ok2 r2) (stop (exec as init)))) =
     trace (exec (drain_round ok1 r1 @ drain_round ok2 r2) (stop (exec as init))) @
       RunCalled e # SetupBegin e # (if ethrows e then [SetupFailed e, Reported] else [])"
proof -
  let ?r = "exec as init"
  let ?ds = "drain_round ok1 r1 @ drain_round ok2 r2"
  let ?t = "exec ?ds (stop ?r)"
  have i: "runner_inv ?r" by (rule reachable_inv)
  have ist: "runner_inv (stop ?r)" using i by (rule inv_stop)
  have it: "runner_inv ?t" using ist by (rule inv_exec)
  note A = stop_eq[OF i]
  have B1: "lastEffect (stop ?r) = None"
    using i by (cases rule: inv_cases) (auto simp: unfold_runner split: option.splits)
  have B2: "isLooping (stop ?r)" "length (loops (stop ?r)) = 1"
    using i by (cases rule: inv_cases; auto simp: unfold_runner split: option.splits)+
  have C: "stopRequested s \<and> lastEffect s = None \<longrightarrow>
      loop_top s =
        (case currentCleanup s of
           None \<Rightarrow> (Returned, s\<lparr> stopRequested := False, lastEffect := None \<rparr>)
         | Some c \<Rightarrow>
             if cthrows c
             then (Returned, emit [CleanupBegin c, CleanupFailed c, Reported]
                     (s\<lparr> stopRequested := False, lastEffect := None, currentCleanup := None \<rparr>))
             else (AtCleanup True None c, emit [CleanupBegin c]
                     (s\<lparr> stopRequested := False, lastEffect := None, currentCleanup := None \<rparr>)))"
    using shutdown_observed[of s] by blast
  have D: "loops ?r = [AtCleanup True None fn] \<and> lastEffect ?r = None \<and> \<not> stopRequested ?r \<longrightarrow>
      exec [CleanupSettles 0 ok, LoopFinally 0] ?r =
        ?r\<lparr> isLooping := False, loops := [],
           trace := trace ?r @ (if ok then [CleanupDone fn] else [CleanupFailed fn, Reported]) \<rparr>"
    using shutdown_cleanup_settles[OF i, of fn ok] by (simp add: pending_def)
  have E: "(\<forall>a \<in> set ds. \<not> is_request a) \<longrightarrow>
      last_started (drop (length (trace ?r)) (trace (exec ds (stop ?r)))) = None \<or>
      last_started (drop (length (trace ?r)) (trace (exec ds (stop ?r)))) = held_task ?r"
  proof
    assume h: "\<forall>a \<in> set ds. \<not> is_request a"
    have "starts_only (length (trace ?r)) (held_task ?r) (stop ?r)"
      using i by (rule starts_only_stop)
    with ist h have "starts_only (length (trace ?r)) (held_task ?r) (exec ds (stop ?r))"
      by (simp add: starts_only_exec)
    then show "last_started (drop (length (trace ?r)) (trace (exec ds (stop ?r)))) = None \<or>
      last_started (drop (length (trace ?r)) (trace (exec ds (stop ?r)))) = held_task ?r"
      by (rule starts_only_result)
  qed
  have q: "\<forall>a \<in> set ?ds. \<not> is_request a" by (simp add: drain_round_def)
  have F1: "loops ?t = []" using ist by (rule drain_two_rounds)
  with it have F2: "isLooping ?t = False" by (simp add: runner_inv_def)
  have "stop_promise ?t" using ist stop_promise_stop[OF i] q by (rule stop_promise_exec)
  with it F1 have F3: "currentCleanup ?t = None" by (simp add: stop_served)
  note G = restart_after_idle[OF it F1 F3, of e]
  from A B1 B2 C D E F1 F2 F3 G show ?thesis by blast
qed

lemma stop_retires_runner_at_schedules:
  "stopRequested (init\<lparr> stopRequested := True \<rparr>) \<and>
   lastEffect (init\<lparr> stopRequested := True \<rparr>) = None \<and>
   loop_top (init\<lparr> stopRequested := True \<rparr>) = (Returned, init) \<and>
   loops (exec [Run (Effect 1 False), SetupSettles 0 (GivesCleanup (Cleanup 10 False)),
                LoopFinally 0, Stop] init) = [AtCleanup True None (Cleanup 10 False)] \<and>
   loops (exec [CleanupSettles 0 True, LoopFinally 0]
           (exec [Run (Effect 1 False), SetupSettles 0 (GivesCleanup (Cleanup 10 False)),
                  LoopFinally 0, Stop] init)) = [] \<and>
   held_task (exec [Run (Effect 1 False),
                SetupSettles 0 (GivesCleanup (Cleanup 10 False)), LoopFinally 0] init) = None \<and>
   \<not> is_request (CleanupSettles 0 True) \<and> \<not> is_request (LoopFinally 0) \<and>
   last_started (drop (length (trace (exec [Run (Effect 1 False),
                SetupSettles 0 (GivesCleanup (Cleanup 10 False)), LoopFinally 0] init)))
       (trace (exec [CleanupSettles 0 True, LoopFinally 0]
          (stop (exec [Run (Effect 1 False),
                SetupSettles 0 (GivesCleanup (Cleanup 10 False)), LoopFinally 0] init))))) = None"
proof -
  let ?s = "init\<lparr> stopRequested := True \<rparr>"
  let ?as1 = "[Run (Effect 1 False), SetupSettles 0 (GivesCleanup (Cleanup 10 False)),
                LoopFinally 0, Stop]"
  let ?as2 = "[Run (Effect 1 False), SetupSettles 0 (GivesCleanup (Cleanup 10 False)),
                LoopFinally 0]"
  let ?ds = "[CleanupSettles 0 True, LoopFinally 0]"
  have s1: "stopRequested ?s \<and> lastEffect ?s = None" by (simp add: init_def)
  have c0: "currentCleanup ?s = None" by (simp add: init_def)
  have d1: "loops (exec ?as1 init) = [AtCleanup True None (Cleanup 10 False)] \<and>
            lastEffect (exec ?as1 init) = None \<and> \<not> stopRequested (exec ?as1 init)"
    by (simp add: eval_runner)
  have e0: "held_task (exec ?as2 init) = None"
    by (simp add: eval_runner held_task_def)
  have e1: "\<forall>a \<in> set ?ds. \<not> is_request a"
    by simp
  note T = stop_retires_runner[of ?as1 ?s "Cleanup 10 False" True _ _ _ _ _ _]
  have C: "loop_top ?s = (Returned, init)"
    using T[THEN conjunct2, THEN conjunct2, THEN conjunct2, THEN conjunct2, THEN conjunct1,
        rule_format, OF s1] by (simp add: c0 init_def)
  have D: "loops (exec ?ds (exec ?as1 init)) = []"
    using T[THEN conjunct2, THEN conjunct2, THEN conjunct2, THEN conjunct2, THEN conjunct2,
        THEN conjunct1, rule_format, OF d1] by simp
  note T2 = stop_retires_runner[of ?as2 _ _ _ ?ds _ _ _ _ _]
  have E: "last_started (drop (length (trace (exec ?as2 init)))
       (trace (exec ?ds (stop (exec ?as2 init))))) = None"
    using T2[THEN conjunct2, THEN conjunct2, THEN conjunct2, THEN conjunct2, THEN conjunct2,
        THEN conjunct2, THEN conjunct1, THEN mp, OF e1] e0 by simp
  from s1 C d1 D e0 e1 E show ?thesis by simp
qed

subsection \<open>C6: a setup that fails\<close>

lemma setup_failure_trace:
  "trace (exec [Run (Effect 1 False), SetupSettles 0 Rejects, LoopFinally 0,
                Run (Effect 2 False), SetupSettles 0 (GivesCleanup (Cleanup 10 False)),
                LoopFinally 0, Stop] init) =
     [RunCalled (Effect 1 False), SetupBegin (Effect 1 False), SetupFailed (Effect 1 False),
      Reported, RunCalled (Effect 2 False), SetupBegin (Effect 2 False),
      SetupDone (Effect 2 False) (Some (Cleanup 10 False)), StopCalled,
      CleanupBegin (Cleanup 10 False)]"
  by (simp add: eval_runner)

text \<open>
  C6.  Let the setup of task \<open>e\<close> be in flight after any interleaving, and let it reject.
  Then no cleanup is stored, the error is reported once, and the runner goes on exactly
  as if the setup had returned no cleanup: the two outcomes differ in the events
  \<open>SetupFailed\<close>, \<open>Reported\<close> against \<open>SetupDone\<close> only, and the iteration that follows
  invokes no cleanup.  A task submitted while \<open>e\<close> was in flight has its setup invoked right
  after the report; a task submitted later, before or after the \<open>finally\<close> callback, has its
  setup invoked as on a fresh runner.  In the events of any interleaving, a cleanup invoked
  after a failed setup was stored by a setup that completed in between.  A setup that
  throws synchronously is treated the same way inside the call of \<open>run\<close>.
\<close>

theorem setup_failure_isolated:
  "(loops (exec as init) = [AtSetup e] \<longrightarrow>
      currentCleanup (exec as init) = None \<and>
      currentCleanup (setup_settled 0 Rejects (exec as init)) = None \<and>
      untraced (setup_settled 0 Rejects (exec as init)) =
        untraced (setup_settled 0 GivesNothing (exec as init)) \<and>
      (\<exists>rest. trace (setup_settled 0 Rejects (exec as init)) =
                trace (exec as init) @ SetupFailed e # Reported # rest \<and>
              trace (setup_settled 0 GivesNothing (exec as init)) =
                trace (exec as init) @ SetupDone e None # rest \<and>
              (\<forall>c. CleanupBegin c \<notin> set rest))) \<and>
   (loops (exec as init) = [AtSetup e] \<and> lastEffect (exec as init) = Some e2 \<longrightarrow>
      trace (setup_settled 0 Rejects (exec as init)) =
        trace (exec as init) @ SetupFailed e # Reported # SetupBegin e2 #
          (if ethrows e2 then [SetupFailed e2, Reported] else [])) \<and>
   (loops (exec as init) = [AtSetup e] \<and> lastEffect (exec as init) = None \<and>
    \<not> stopRequested (exec as init) \<longrightarrow>
      loops (setup_settled 0 Rejects (exec as init)) = [Returned] \<and>
      trace (exec [Run e2, LoopFinally 0] (setup_settled 0 Rejects (exec as init))) =
        trace (exec as init) @ SetupFailed e # Reported # RunCalled e2 # SetupBegin e2 #
          (if ethrows e2 then [SetupFailed e2, Reported] else []) \<and>
      trace (exec [LoopFinally 0, Run e2] (setup_settled 0 Rejects (exec as init))) =
        trace (exec as init) @ SetupFailed e # Reported # RunCalled e2 # SetupBegin e2 #
          (if ethrows e2 then [SetupFailed e2, Reported] else [])) \<and>
   (trace (exec as init) = pre @ SetupFailed e # mid @ CleanupBegin c # post \<longrightarrow>
      (\<exists>e'. SetupDone e' (Some c) \<in> set mid)) \<and>
   (\<not> isLooping (exec as init) \<and> currentCleanup (exec as init) = None \<and> ethrows e \<longrightarrow>
      trace (run e (exec as init)) =
        trace (exec as init) @ [RunCalled e, SetupBegin e, SetupFailed e, Reported] \<and>
      currentCleanup (run e (exec as init)) = None \<and>
      loops (run e (exec as init)) = [Returned])"
proof -
  let ?r = "exec as init"
  have i: "runner_inv ?r" by (rule reachable_inv)
  note 1 = setup_failure_like_nothing[OF i, of e]
  note 2 = setup_failure_pending_starts[OF i, of e e2]
  note 3 = setup_failure_later_run[OF i, of e e2]
  have 4: "trace ?r = pre @ SetupFailed e # mid @ CleanupBegin c # post \<longrightarrow>
      (\<exists>e'. SetupDone e' (Some c) \<in> set mid)"
  proof
    assume tr: "trace ?r = pre @ SetupFailed e # mid @ CleanupBegin c # post"
    from reachable_monitor[of as] tr obtain q
      where "monitor Clean (pre @ SetupFailed e # mid @ CleanupBegin c # post) = Some q"
      by auto
    from monitor_split[OF this] obtain p1 p2
      where "observe p1 (SetupFailed e) = Some p2"
        and m: "monitor p2 (mid @ CleanupBegin c # post) = Some q" by blast
    then have "p2 \<noteq> Held c" by (auto split: if_splits)
    with m show "\<exists>e'. SetupDone e' (Some c) \<in> set mid" by (rule monitor_needs_store)
  qed
  note 5 = setup_sync_throw[OF i, of e]
  from 1 2 3 4 5 show ?thesis by blast
qed

theorem setup_failure_isolated_witness:
  "loops (exec [Run (Effect 1 False), Run (Effect 2 False)] init) = [AtSetup (Effect 1 False)] \<and>
   lastEffect (exec [Run (Effect 1 False), Run (Effect 2 False)] init) = Some (Effect 2 False) \<and>
   currentCleanup (setup_settled 0 Rejects
      (exec [Run (Effect 1 False), Run (Effect 2 False)] init)) = None \<and>
   trace (setup_settled 0 Rejects (exec [Run (Effect 1 False), Run (Effect 2 False)] init)) =
     trace (exec [Run (Effect 1 False), Run (Effect 2 False)] init) @
       SetupFailed (Effect 1 False) # Reported # SetupBegin (Effect 2 False) #
         (if ethrows (Effect 2 False) then [SetupFailed (Effect 2 False), Reported] else []) \<and>
   loops (exec [Run (Effect 1 False)] init) = [AtSetup (Effect 1 False)] \<and>
   lastEffect (exec [Run (Effect 1 False)] init) = None \<and>
   loops (setup_settled 0 Rejects (exec [Run (Effect 1 False)] init)) = [Returned] \<and>
   (\<exists>e'. SetupDone e' (Some (Cleanup 10 False)) \<in>
      set [Reported, RunCalled (Effect 2 False), SetupBegin (Effect 2 False),
           SetupDone (Effect 2 False) (Some (Cleanup 10 False)), StopCalled]) \<and>
   ethrows (Effect 3 True) \<and>
   loops (run (Effect 3 True) (exec [] init)) = [Returned]"
proof -
  let ?as1 = "[Run (Effect 1 False), Run (Effect 2 False)]"
  let ?as2 = "[Run (Effect 1 False)]"
  let ?as3 = "[Run (Effect 1 False), SetupSettles 0 Rejects, LoopFinally 0,
                Run (Effect 2 False), SetupSettles 0 (GivesCleanup (Cleanup 10 False)),
                LoopFinally 0, Stop]"
  let ?mid = "[Reported, RunCalled (Effect 2 False), SetupBegin (Effect 2 False),
           SetupDone (Effect 2 False) (Some (Cleanup 10 False)), StopCalled]"
  have a1: "loops (exec ?as1 init) = [AtSetup (Effect 1 False)]"
    and a2: "lastEffect (exec ?as1 init) = Some (Effect 2 False)"
    by (simp_all add: eval_runner)
  have b1: "loops (exec ?as2 init) = [AtSetup (Effect 1 False)]"
    and b2: "lastEffect (exec ?as2 init) = None"
    and b3: "\<not> stopRequested (exec ?as2 init)"
    by (simp_all add: eval_runner)
  have c1: "trace (exec ?as3 init) =
      [RunCalled (Effect 1 False), SetupBegin (Effect 1 False)] @
        SetupFailed (Effect 1 False) # ?mid @ CleanupBegin (Cleanup 10 False) # []"
    by (subst setup_failure_trace) simp
  have d1: "\<not> isLooping (exec [] init)" and d2: "currentCleanup (exec [] init) = None"
    and d3: "ethrows (Effect 3 True)"
    by (simp_all add: init_def)
  from setup_failure_isolated[of ?as1 "Effect 1 False" "Effect 2 False"] a1 a2
  have A: "currentCleanup (setup_settled 0 Rejects (exec ?as1 init)) = None"
    and A': "trace (setup_settled 0 Rejects (exec ?as1 init)) =
     trace (exec ?as1 init) @
       SetupFailed (Effect 1 False) # Reported # SetupBegin (Effect 2 False) #
         (if ethrows (Effect 2 False) then [SetupFailed (Effect 2 False), Reported] else [])"
    by blast+
  from setup_failure_isolated[of ?as2 "Effect 1 False"] b1 b2 b3
  have B: "loops (setup_settled 0 Rejects (exec ?as2 init)) = [Returned]"
    by blast
  from setup_failure_isolated[of ?as3 "Effect 1 False" _
      "[RunCalled (Effect 1 False), SetupBegin (Effect 1 False)]" ?mid
      "Cleanup 10 False" "[]"] c1
  have C: "\<exists>e'. SetupDone e' (Some (Cleanup 10 False)) \<in> set ?mid"
    by blast
  from setup_failure_isolated[of "[]" "Effect 3 True"] d1 d2 d3
  have D: "loops (run (Effect 3 True) (exec [] init)) = [Returned]"
    by blast
  from a1 a2 A A' b1 b2 B C d3 D show ?thesis by (intro conjI)
qed

subsection \<open>C7: a cleanup that fails\<close>

lemma cleanup_failure_trace:
  "trace (exec [Run (Effect 1 False), SetupSettles 0 (GivesCleanup (Cleanup 10 False)),
                LoopFinally 0, Run (Effect 2 False), CleanupSettles 0 False,
                SetupSettles 0 (GivesCleanup (Cleanup 10 False)), LoopFinally 0, Stop] init) =
     [RunCalled (Effect 1 False), SetupBegin (Effect 1 False),
      SetupDone (Effect 1 False) (Some (Cleanup 10 False)), RunCalled (Effect 2 False),
      CleanupBegin (Cleanup 10 False), CleanupFailed (Cleanup 10 False), Reported,
      SetupBegin (Effect 2 False), SetupDone (Effect 2 False) (Some (Cleanup 10 False)),
      StopCalled, CleanupBegin (Cleanup 10 False)]"
  by (simp add: eval_runner)

text \<open>
  C7.  After every interleaving, while a cleanup is awaited \<open>currentCleanup\<close> is empty: the
  cleanup was taken out before it was invoked.  If the awaited cleanup rejects, the error
  is reported once and the runner goes on exactly as if the cleanup had been fulfilled:
  the two outcomes differ in the events \<open>CleanupFailed\<close>, \<open>Reported\<close> against
  \<open>CleanupDone\<close> only.  So the task of the snapshot has its setup invoked right after the
  report, and after a shutdown the loop exits and the runner goes idle.  The cleanup is
  not invoked again: in the events of any interleaving, an invocation of \<open>c\<close> after a
  failure of \<open>c\<close> follows a setup that completed in between and stored \<open>c\<close> anew.  A cleanup
  that throws synchronously is treated the same way inside the call that invoked it.
\<close>

theorem cleanup_failure_isolated:
  "(AtCleanup sh nx fn \<in> set (loops (exec as init)) \<longrightarrow>
      currentCleanup (exec as init) = None) \<and>
   (loops (exec as init) = [AtCleanup sh nx fn] \<longrightarrow>
      untraced (cleanup_settled 0 False (exec as init)) =
        untraced (cleanup_settled 0 True (exec as init)) \<and>
      (\<exists>rest. trace (cleanup_settled 0 False (exec as init)) =
                trace (exec as init) @ CleanupFailed fn # Reported # rest \<and>
              trace (cleanup_settled 0 True (exec as init)) =
                trace (exec as init) @ CleanupDone fn # rest)) \<and>
   (loops (exec as init) = [AtCleanup False (Some e) fn] \<longrightarrow>
      (\<exists>rest. trace (cleanup_settled 0 False (exec as init)) =
                trace (exec as init) @ CleanupFailed fn # Reported # SetupBegin e # rest)) \<and>
   (loops (exec as init) = [AtCleanup True None fn] \<and> lastEffect (exec as init) = None \<and>
    \<not> stopRequested (exec as init) \<longrightarrow>
      loops (exec [CleanupSettles 0 False, LoopFinally 0] (exec as init)) = []) \<and>
   (trace (exec as init) = pre @ CleanupFailed c # mid @ CleanupBegin c # post \<longrightarrow>
      (\<exists>e'. SetupDone e' (Some c) \<in> set mid)) \<and>
   (\<not> isLooping (exec as init) \<and> currentCleanup (exec as init) = Some c \<and> cthrows c \<longrightarrow>
      (\<exists>rest. trace (run e (exec as init)) =
                trace (exec as init) @ RunCalled e # CleanupBegin c # CleanupFailed c #
                  Reported # SetupBegin e # rest) \<and>
      currentCleanup (run e (exec as init)) = None)"
proof -
  let ?r = "exec as init"
  have i: "runner_inv ?r" by (rule reachable_inv)
  have 1: "AtCleanup sh nx fn \<in> set (loops ?r) \<longrightarrow> currentCleanup ?r = None"
    using i by (auto simp: runner_inv_def frame_ok_def)
  note 2 = cleanup_failure_like_success[OF i, of sh nx fn]
  note 3 = cleanup_failure_next_starts[OF i, of e fn]
  have 4: "loops ?r = [AtCleanup True None fn] \<and> lastEffect ?r = None \<and> \<not> stopRequested ?r \<longrightarrow>
      loops (exec [CleanupSettles 0 False, LoopFinally 0] ?r) = []"
    using cleanup_failure_idles[OF i, of fn] by (simp add: pending_def)
  have 5: "trace ?r = pre @ CleanupFailed c # mid @ CleanupBegin c # post \<longrightarrow>
      (\<exists>e'. SetupDone e' (Some c) \<in> set mid)"
  proof
    assume tr: "trace ?r = pre @ CleanupFailed c # mid @ CleanupBegin c # post"
    from reachable_monitor[of as] tr obtain q
      where "monitor Clean (pre @ CleanupFailed c # mid @ CleanupBegin c # post) = Some q"
      by auto
    from monitor_split[OF this] obtain p1 p2
      where "observe p1 (CleanupFailed c) = Some p2"
        and m: "monitor p2 (mid @ CleanupBegin c # post) = Some q" by blast
    then have "p2 \<noteq> Held c" by (auto split: if_splits)
    with m show "\<exists>e'. SetupDone e' (Some c) \<in> set mid" by (rule monitor_needs_store)
  qed
  note 6 = cleanup_sync_throw[OF i, of c e]
  from 1 2 3 4 5 6 show ?thesis by blast
qed

theorem cleanup_failure_isolated_witness:
  "loops (exec [Run (Effect 1 False), SetupSettles 0 (GivesCleanup (Cleanup 10 False)),
                LoopFinally 0, Run (Effect 2 False)] init) =
     [AtCleanup False (Some (Effect 2 False)) (Cleanup 10 False)] \<and>
   currentCleanup (exec [Run (Effect 1 False), SetupSettles 0 (GivesCleanup (Cleanup 10 False)),
                LoopFinally 0, Run (Effect 2 False)] init) = None \<and>
   untraced (cleanup_settled 0 False
       (exec [Run (Effect 1 False), SetupSettles 0 (GivesCleanup (Cleanup 10 False)),
                LoopFinally 0, Run (Effect 2 False)] init)) =
     untraced (cleanup_settled 0 True
       (exec [Run (Effect 1 False), SetupSettles 0 (GivesCleanup (Cleanup 10 False)),
                LoopFinally 0, Run (Effect 2 False)] init)) \<and>
   (\<exists>rest. trace (cleanup_settled 0 False
       (exec [Run (Effect 1 False), SetupSettles 0 (GivesCleanup (Cleanup 10 False)),
                LoopFinally 0, Run (Effect 2 False)] init)) =
     trace (exec [Run (Effect 1 False), SetupSettles 0 (GivesCleanup (Cleanup 10 False)),
                LoopFinally 0, Run (Effect 2 False)] init) @
       CleanupFailed (Cleanup 10 False) # Reported # SetupBegin (Effect 2 False) # rest) \<and>
   loops (exec [Run (Effect 1 False), SetupSettles 0 (GivesCleanup (Cleanup 10 False)),
                LoopFinally 0, Stop] init) = [AtCleanup True None (Cleanup 10 False)] \<and>
   loops (exec [CleanupSettles 0 False, LoopFinally 0]
       (exec [Run (Effect 1 False), SetupSettles 0 (GivesCleanup (Cleanup 10 False)),
                LoopFinally 0, Stop] init)) = [] \<and>
   (\<exists>e'. SetupDone e' (Some (Cleanup 10 False)) \<in>
      set [Reported, SetupBegin (Effect 2 False),
           SetupDone (Effect 2 False) (Some (Cleanup 10 False)), StopCalled]) \<and>
   currentCleanup (exec [Run (Effect 1 False), SetupSettles 0 (GivesCleanup (Cleanup 11 True)),
                LoopFinally 0] init) = Some (Cleanup 11 True) \<and>
   currentCleanup (run (Effect 2 False)
      (exec [Run (Effect 1 False), SetupSettles 0 (GivesCleanup (Cleanup 11 True)),
                LoopFinally 0] init)) = None"
proof -
  let ?as1 = "[Run (Effect 1 False), SetupSettles 0 (GivesCleanup (Cleanup 10 False)),
                LoopFinally 0, Run (Effect 2 False)]"
  let ?as2 = "[Run (Effect 1 False), SetupSettles 0 (GivesCleanup (Cleanup 10 False)),
                LoopFinally 0, Stop]"
  let ?as3 = "[Run (Effect 1 False), SetupSettles 0 (GivesCleanup (Cleanup 10 False)),
                LoopFinally 0, Run (Effect 2 False), CleanupSettles 0 False,
                SetupSettles 0 (GivesCleanup (Cleanup 10 False)), LoopFinally 0, Stop]"
  let ?as4 = "[Run (Effect 1 False), SetupSettles 0 (GivesCleanup (Cleanup 11 True)),
                LoopFinally 0]"
  let ?pre = "[RunCalled (Effect 1 False), SetupBegin (Effect 1 False),
      SetupDone (Effect 1 False) (Some (Cleanup 10 False)), RunCalled (Effect 2 False),
      CleanupBegin (Cleanup 10 False)]"
  let ?mid = "[Reported, SetupBegin (Effect 2 False),
           SetupDone (Effect 2 False) (Some (Cleanup 10 False)), StopCalled]"
  have a1: "loops (exec ?as1 init) = [AtCleanup False (Some (Effect 2 False)) (Cleanup 10 False)]"
    by (simp add: eval_runner)
  then have a2: "AtCleanup False (Some (Effect 2 False)) (Cleanup 10 False)
      \<in> set (loops (exec ?as1 init))" by simp
  have b1: "loops (exec ?as2 init) = [AtCleanup True None (Cleanup 10 False)]"
    and b2: "lastEffect (exec ?as2 init) = None" and b3: "\<not> stopRequested (exec ?as2 init)"
    by (simp_all add: eval_runner)
  have c1: "trace (exec ?as3 init) =
      ?pre @ CleanupFailed (Cleanup 10 False) # ?mid @ CleanupBegin (Cleanup 10 False) # []"
    by (subst cleanup_failure_trace) simp
  have d1: "\<not> isLooping (exec ?as4 init)"
    and d2: "currentCleanup (exec ?as4 init) = Some (Cleanup 11 True)"
    and d3: "cthrows (Cleanup 11 True)"
    by (simp_all add: eval_runner)
  from cleanup_failure_isolated[of False "Some (Effect 2 False)" "Cleanup 10 False" ?as1
      "Effect 2 False"] a1 a2
  have A1: "currentCleanup (exec ?as1 init) = None"
    and A2: "untraced (cleanup_settled 0 False (exec ?as1 init)) =
             untraced (cleanup_settled 0 True (exec ?as1 init))"
    and A3: "\<exists>rest. trace (cleanup_settled 0 False (exec ?as1 init)) =
       trace (exec ?as1 init) @
         CleanupFailed (Cleanup 10 False) # Reported # SetupBegin (Effect 2 False) # rest"
    by blast+
  from cleanup_failure_isolated[of True None "Cleanup 10 False" ?as2] b1 b2 b3
  have B: "loops (exec [CleanupSettles 0 False, LoopFinally 0] (exec ?as2 init)) = []"
    by blast
  from cleanup_failure_isolated[of _ _ _ ?as3 _ ?pre "Cleanup 10 False" ?mid "[]"] c1
  have C: "\<exists>e'. SetupDone e' (Some (Cleanup 10 False)) \<in> set ?mid"
    by blast
  from cleanup_failure_isolated[of _ _ _ ?as4 "Effect 2 False" _ "Cleanup 11 True"] d1 d2 d3
  have D: "currentCleanup (run (Effect 2 False) (exec ?as4 init)) = None"
    by blast
  from a1 A1 A2 A3 b1 B C d2 D show ?thesis by (intro conjI)
qed

subsection \<open>C8: one driver loop at a time\<close>

text \<open>
  C8.  After every interleaving of \<open>run\<close> and \<open>stop\<close> calls with the settling of awaited
  promises and the \<open>finally\<close> callbacks, at most one \<open>loop()\<close> coroutine exists,
  \<open>isLooping\<close> is true exactly when one exists, and \<open>ensureLoop\<close> called while it is true
  changes nothing: it starts no second coroutine.  Called on the idle runner it starts
  exactly one.
\<close>

theorem single_driver_loop:
  "length (loops (exec as init)) \<le> 1 \<and>
   (isLooping (exec as init) \<longleftrightarrow> loops (exec as init) \<noteq> []) \<and>
   (isLooping (exec as init) \<longrightarrow> ensureLoop (exec as init) = exec as init) \<and>
   (\<not> isLooping (exec as init) \<longrightarrow> length (loops (ensureLoop (exec as init))) = 1)"
proof -
  have i: "runner_inv (exec as init)" by (rule reachable_inv)
  then have "length (loops (exec as init)) \<le> 1"
    and "isLooping (exec as init) \<longleftrightarrow> loops (exec as init) \<noteq> []"
    by (simp_all add: runner_inv_def)
  moreover have "isLooping (exec as init) \<longrightarrow> ensureLoop (exec as init) = exec as init"
    by (simp add: ensureLoop_def)
  moreover have "\<not> isLooping (exec as init) \<longrightarrow> length (loops (ensureLoop (exec as init))) = 1"
    using i by (cases rule: inv_cases) (auto simp: unfold_runner split: option.splits)
  ultimately show ?thesis by blast
qed

theorem single_driver_loop_witness:
  "isLooping (exec [Run (Effect 1 False)] init) \<and>
   ensureLoop (exec [Run (Effect 1 False)] init) = exec [Run (Effect 1 False)] init \<and>
   length (loops (exec [Run (Effect 1 False)] init)) \<le> 1 \<and>
   \<not> isLooping (exec [] init) \<and>
   length (loops (ensureLoop (exec [] init))) = 1"
proof -
  have h1: "isLooping (exec [Run (Effect 1 False)] init)"
    by (simp add: eval_runner)
  have h2: "\<not> isLooping (exec [] init)"
    by (simp add: init_def)
  from single_driver_loop[of "[Run (Effect 1 False)]"] single_driver_loop[of "[]"] h1 h2
  show ?thesis by blast
qed

subsection \<open>C9: no request is lost\<close>

text \<open>
  C9.  Let \<open>run(e)\<close> or \<open>stop()\<close> be called after any interleaving, whatever the loop is
  doing: idle, awaiting a cleanup or a setup, or returned with its \<open>finally\<close> callback
  still to come.  Then a loop is running afterwards.  The task \<open>e\<close> is in \<open>lastEffect\<close>,
  or in the snapshot of the iteration that awaits a cleanup, or its setup has been
  invoked; the shutdown is in \<open>stopRequested\<close>, or in the snapshot of the iteration that
  awaits a cleanup, or is served already.  Whatever happens next, as long as no further
  request is made: when the runner is idle again, \<open>e\<close> is the task whose setup was invoked
  last, respectively no cleanup is stored and no shutdown is pending.  And the runner does
  become idle: two rounds of settlements are enough.  The caller has nothing more to do.
\<close>

theorem requests_not_lost:
  "isLooping (run e (exec as init)) \<and>
   (lastEffect (run e (exec as init)) = Some e \<or>
    (\<exists>c. loops (run e (exec as init)) = [AtCleanup False (Some e) c]) \<or>
    last_started (drop (length (trace (exec as init))) (trace (run e (exec as init)))) = Some e) \<and>
   ((\<forall>a \<in> set ds. \<not> is_request a) \<and> loops (exec ds (run e (exec as init))) = [] \<longrightarrow>
      last_started (drop (length (trace (exec as init)))
                      (trace (exec ds (run e (exec as init))))) = Some e) \<and>
   loops (exec (drain_round ok1 r1 @ drain_round ok2 r2) (run e (exec as init))) = [] \<and>
   isLooping (stop (exec as init)) \<and>
   (stopRequested (stop (exec as init)) \<or>
    (\<exists>c. loops (stop (exec as init)) = [AtCleanup True None c]) \<or>
    loops (stop (exec as init)) = [Returned] \<and> currentCleanup (stop (exec as init)) = None) \<and>
   ((\<forall>a \<in> set ds. \<not> is_request a) \<and> loops (exec ds (stop (exec as init))) = [] \<longrightarrow>
      currentCleanup (exec ds (stop (exec as init))) = None \<and>
      \<not> stopRequested (exec ds (stop (exec as init)))) \<and>
   loops (exec (drain_round ok1 r1 @ drain_round ok2 r2) (stop (exec as init))) = []"
proof -
  let ?r = "exec as init"
  let ?n = "length (trace ?r)"
  let ?dd = "drain_round ok1 r1 @ drain_round ok2 r2"
  have i: "runner_inv ?r" by (rule reachable_inv)
  have ir: "runner_inv (run e ?r)" using i by (rule inv_run)
  have ist: "runner_inv (stop ?r)" using i by (rule inv_stop)
  have pr: "run_promise ?n e (run e ?r)" using i by (rule promise_run)
  have ps: "stop_promise (stop ?r)" using i by (rule stop_promise_stop)
  have 1: "isLooping (run e ?r)"
    using i by (cases rule: inv_cases) (auto simp: unfold_runner split: option.splits)
  have 2: "lastEffect (run e ?r) = Some e \<or>
    (\<exists>c. loops (run e ?r) = [AtCleanup False (Some e) c]) \<or>
    last_started (drop ?n (trace (run e ?r))) = Some e"
    using pr by (auto simp: run_promise_def)
  have 3: "(\<forall>a \<in> set ds. \<not> is_request a) \<and> loops (exec ds (run e ?r)) = [] \<longrightarrow>
      last_started (drop ?n (trace (exec ds (run e ?r)))) = Some e"
  proof
    assume h: "(\<forall>a \<in> set ds. \<not> is_request a) \<and> loops (exec ds (run e ?r)) = []"
    with ir pr have "run_promise ?n e (exec ds (run e ?r))" by (simp add: promise_exec)
    moreover have "runner_inv (exec ds (run e ?r))" using ir by (rule inv_exec)
    ultimately show "last_started (drop ?n (trace (exec ds (run e ?r)))) = Some e"
      using h by (simp add: run_served)
  qed
  have 4: "loops (exec ?dd (run e ?r)) = []" using ir by (rule drain_two_rounds)
  have 5: "isLooping (stop ?r)"
    using i by (cases rule: inv_cases) (auto simp: unfold_runner split: option.splits)
  have 6: "stopRequested (stop ?r) \<or>
    (\<exists>c. loops (stop ?r) = [AtCleanup True None c]) \<or>
    loops (stop ?r) = [Returned] \<and> currentCleanup (stop ?r) = None"
    using ps ist 5 by (auto simp: stop_promise_def runner_inv_def)
  have 7: "(\<forall>a \<in> set ds. \<not> is_request a) \<and> loops (exec ds (stop ?r)) = [] \<longrightarrow>
      currentCleanup (exec ds (stop ?r)) = None \<and> \<not> stopRequested (exec ds (stop ?r))"
  proof
    assume h: "(\<forall>a \<in> set ds. \<not> is_request a) \<and> loops (exec ds (stop ?r)) = []"
    with ist ps have "stop_promise (exec ds (stop ?r))" by (simp add: stop_promise_exec)
    moreover have it: "runner_inv (exec ds (stop ?r))" using ist by (rule inv_exec)
    ultimately have "currentCleanup (exec ds (stop ?r)) = None"
      using h by (simp add: stop_served)
    moreover from it h have "\<not> stopRequested (exec ds (stop ?r))"
      by (simp add: runner_inv_def pending_def)
    ultimately show "currentCleanup (exec ds (stop ?r)) = None \<and>
        \<not> stopRequested (exec ds (stop ?r))" by simp
  qed
  have 8: "loops (exec ?dd (stop ?r)) = []" using ist by (rule drain_two_rounds)
  from 1 2 3 4 5 6 7 8 show ?thesis by blast
qed

theorem requests_not_lost_witness:
  "loops (exec [Run (Effect 1 False), SetupSettles 0 GivesNothing] init) = [Returned] \<and>
   \<not> is_request (LoopFinally 0) \<and> \<not> is_request (SetupSettles 0 GivesNothing) \<and>
   loops (exec [LoopFinally 0, SetupSettles 0 GivesNothing, LoopFinally 0]
      (run (Effect 2 False) (exec [Run (Effect 1 False), SetupSettles 0 GivesNothing] init))) = [] \<and>
   last_started (drop (length (trace (exec [Run (Effect 1 False), SetupSettles 0 GivesNothing] init)))
      (trace (exec [LoopFinally 0, SetupSettles 0 GivesNothing, LoopFinally 0]
        (run (Effect 2 False) (exec [Run (Effect 1 False), SetupSettles 0 GivesNothing] init)))))
     = Some (Effect 2 False) \<and>
   loops (exec [SetupSettles 0 (GivesCleanup (Cleanup 10 False)), CleanupSettles 0 True,
                LoopFinally 0] (stop (exec [Run (Effect 1 False)] init))) = [] \<and>
   currentCleanup (exec [SetupSettles 0 (GivesCleanup (Cleanup 10 False)), CleanupSettles 0 True,
                LoopFinally 0] (stop (exec [Run (Effect 1 False)] init))) = None"
proof -
  let ?as1 = "[Run (Effect 1 False), SetupSettles 0 GivesNothing]"
  let ?ds1 = "[LoopFinally 0, SetupSettles 0 GivesNothing, LoopFinally 0]"
  let ?as2 = "[Run (Effect 1 False)]"
  let ?ds2 = "[SetupSettles 0 (GivesCleanup (Cleanup 10 False)), CleanupSettles 0 True,
                LoopFinally 0]"
  have a0: "loops (exec ?as1 init) = [Returned]" by (simp add: eval_runner)
  have a1: "(\<forall>a \<in> set ?ds1. \<not> is_request a) \<and>
            loops (exec ?ds1 (run (Effect 2 False) (exec ?as1 init))) = []"
    by (simp add: eval_runner)
  have b1: "(\<forall>a \<in> set ?ds2. \<not> is_request a) \<and> loops (exec ?ds2 (stop (exec ?as2 init))) = []"
    by (simp add: eval_runner)
  from requests_not_lost[of "Effect 2 False" ?as1 ?ds1] a1
  have A: "last_started (drop (length (trace (exec ?as1 init)))
      (trace (exec ?ds1 (run (Effect 2 False) (exec ?as1 init))))) = Some (Effect 2 False)"
    by blast
  from requests_not_lost[of _ ?as2 ?ds2] b1
  have B: "currentCleanup (exec ?ds2 (stop (exec ?as2 init))) = None"
    by blast
  from a0 a1 A b1 B show ?thesis by simp
qed

subsection \<open>C10: a pending task and a pending shutdown exclude each other\<close>

text \<open>
  C10.  After every interleaving, \<open>lastEffect\<close> is not set while \<open>stopRequested\<close> is true,
  and no suspended iteration holds a snapshot with both \<open>shouldStop\<close> and a task.  This is
  because each writer leaves the two variables so, from whatever state it is called:
  \<open>run\<close>, \<open>stop\<close>, and the loop, whose snapshot clears both.
\<close>

theorem task_and_shutdown_exclusive:
  "\<not> (lastEffect (exec as init) \<noteq> None \<and> stopRequested (exec as init)) \<and>
   AtCleanup True (Some e) fn \<notin> set (loops (exec as init)) \<and>
   \<not> (lastEffect (run e s) \<noteq> None \<and> stopRequested (run e s)) \<and>
   \<not> (lastEffect (stop s) \<noteq> None \<and> stopRequested (stop s)) \<and>
   \<not> (lastEffect (snd (loop_top s)) \<noteq> None \<or> stopRequested (snd (loop_top s)))"
proof -
  have i: "runner_inv (exec as init)" by (rule reachable_inv)
  then have 1: "\<not> (lastEffect (exec as init) \<noteq> None \<and> stopRequested (exec as init))"
    by (auto simp: runner_inv_def)
  have 2: "AtCleanup True (Some e) fn \<notin> set (loops (exec as init))"
    using i by (cases rule: inv_cases) (auto simp: frame_ok_def)
  have 3: "\<not> (lastEffect (run e s) \<noteq> None \<and> stopRequested (run e s))"
    by (auto simp: unfold_runner split: option.splits)
  have 4: "\<not> (lastEffect (stop s) \<noteq> None \<and> stopRequested (stop s))"
    by (auto simp: unfold_runner split: option.splits)
  have 5: "\<not> (lastEffect (snd (loop_top s)) \<noteq> None \<or> stopRequested (snd (loop_top s)))"
    by (auto simp: unfold_runner split: option.splits)
  from 1 2 3 4 5 show ?thesis by blast
qed

theorem task_and_shutdown_exclusive_witness:
  "stopRequested (exec [Run (Effect 1 False), Stop] init) \<and>
   lastEffect (exec [Run (Effect 1 False), Stop] init) = None \<and>
   AtCleanup True (Some (Effect 2 False)) (Cleanup 10 False)
     \<notin> set (loops (exec [Run (Effect 1 False), Stop] init))"
proof -
  have h: "stopRequested (exec [Run (Effect 1 False), Stop] init)"
    by (simp add: eval_runner)
  from task_and_shutdown_exclusive[of "[Run (Effect 1 False), Stop]" "Effect 2 False"
      "Cleanup 10 False" init] h
  show ?thesis by blast
qed

end
